theory Spec2Isabelle
  imports Complex_Main "HOL-Library.AList" "HOL-Library.Multiset" "HOL-Library.Log_Nat"
begin

section \<open>Errors and numbers\<close>

text \<open>
  Every container of the repository signals an empty extraction with Python's
  \<^verbatim>\<open>IndexError\<close>; a dictionary subscript on a missing key raises \<^verbatim>\<open>KeyError\<close>; the
  conversion of an integer too large for a float raises \<^verbatim>\<open>OverflowError\<close>. All three
  are values of the model.
\<close>

datatype error = EmptyContainer | KeyError | OverflowError

text \<open>
  Edge weights, heuristic values, distances and priorities are Python numbers: an
  \<^verbatim>\<open>int\<close> of any size, or a \<^verbatim>\<open>float\<close>, which is a finite IEEE 754 double, one of the
  two infinities, or a NaN. A finite double is recorded by the real number it denotes
  (the two zeros are not told apart: they compare equal and nothing here divides).
\<close>

datatype pyfloat = Finite real | PosInf | NegInf | NaN

datatype pynum = PInt int | PFloat pyfloat

text \<open>
  Rounding to 53 significant bits, ties to even: the integer \<open>k\<close> keeps its 53 leading
  bits, \<open>q\<close> is the weight of the last bit kept and \<open>r\<close> is what is cut off.
\<close>

definition round53 :: "int \<Rightarrow> int" where
  "round53 k =
     (let n = abs k; b = bitlen n in
      if b \<le> 53 then k
      else let q = 2 ^ nat (b - 53);
               m = n div q;
               r = n mod q;
               m' = (if 2 * r < q then m else if q < 2 * r then m + 1
                     else if even m then m else m + 1)
           in sgn k * (m' * q))"

text \<open>
  The double nearest to a real number. Every finite double is an integer multiple of
  the smallest positive one, two to the power \<open>-1074\<close>, and so is the exact sum of two
  doubles: the sum is rounded as an integer count of that unit. A result of magnitude
  two to the power \<open>1024\<close> or more is an infinity.
\<close>

definition to_double :: "real \<Rightarrow> pyfloat" where
  "to_double x =
     (let k = round53 \<lfloor>x * 2 ^ 1074\<rfloor> in
      if 2 ^ 2098 \<le> k then PosInf
      else if k \<le> - (2 ^ 2098) then NegInf
      else Finite (of_int k / 2 ^ 1074))"


text \<open>
  The conversion of an \<^verbatim>\<open>int\<close> operand to \<^verbatim>\<open>float\<close>: correctly rounded, and an
  \<^verbatim>\<open>OverflowError\<close> when the result is out of range.
\<close>

definition int_to_double :: "int \<Rightarrow> error + pyfloat" where
  "int_to_double i =
     (let k = round53 i in
      if 2 ^ 1024 \<le> abs k then Inl OverflowError else Inr (Finite (of_int k)))"

text \<open>Addition of two floats: the exact sum, rounded.\<close>

fun float_add :: "pyfloat \<Rightarrow> pyfloat \<Rightarrow> pyfloat" where
  "float_add (Finite a) (Finite b) = to_double (a + b)"
| "float_add NaN y = NaN"
| "float_add x NaN = NaN"
| "float_add PosInf NegInf = NaN"
| "float_add NegInf PosInf = NaN"
| "float_add PosInf y = PosInf"
| "float_add x PosInf = PosInf"
| "float_add NegInf y = NegInf"
| "float_add x NegInf = NegInf"

text \<open>
  Python's \<^verbatim>\<open>+\<close>: exact on two integers; otherwise the integer operand is converted
  and the floats are added.
\<close>

fun py_add :: "pynum \<Rightarrow> pynum \<Rightarrow> error + pynum" where
  "py_add (PInt a) (PInt b) = Inr (PInt (a + b))"
| "py_add (PInt a) (PFloat y) =
     (case int_to_double a of Inl e \<Rightarrow> Inl e | Inr x \<Rightarrow> Inr (PFloat (float_add x y)))"
| "py_add (PFloat x) (PInt b) =
     (case int_to_double b of Inl e \<Rightarrow> Inl e | Inr y \<Rightarrow> Inr (PFloat (float_add x y)))"
| "py_add (PFloat x) (PFloat y) = Inr (PFloat (float_add x y))"

text \<open>
  Python's \<^verbatim>\<open><\<close>: false as soon as one side is NaN, and otherwise the comparison of
  the exact values, also between an integer and a float.
\<close>

fun float_less :: "pyfloat \<Rightarrow> pyfloat \<Rightarrow> bool" where
  "float_less (Finite a) (Finite b) = (a < b)"
| "float_less NaN y = False"
| "float_less x NaN = False"
| "float_less x NegInf = False"
| "float_less NegInf y = True"
| "float_less PosInf y = False"
| "float_less x PosInf = True"

fun py_less :: "pynum \<Rightarrow> pynum \<Rightarrow> bool" where
  "py_less (PInt a) (PInt b) = (a < b)"
| "py_less (PInt a) (PFloat y) = float_less (Finite (of_int a)) y"
| "py_less (PFloat x) (PInt b) = float_less x (Finite (of_int b))"
| "py_less (PFloat x) (PFloat y) = float_less x y"

instantiation pynum :: ord
begin

definition less_pynum :: "pynum \<Rightarrow> pynum \<Rightarrow> bool" where
  "less_pynum a b = py_less a b"

definition less_eq_pynum :: "pynum \<Rightarrow> pynum \<Rightarrow> bool" where
  "less_eq_pynum a b = (py_less a b \<or> py_less a b = py_less b a \<and> a \<noteq> PFloat NaN \<and> b \<noteq> PFloat NaN)"

instance ..

end

text \<open>The sentinel \<^verbatim>\<open>float('inf')\<close>.\<close>

abbreviation py_inf :: pynum where
  "py_inf \<equiv> PFloat PosInf"

section \<open>Linear containers\<close>

text \<open>
  \<^verbatim>\<open>Queue\<close> (queue.py) is a singly linked list with a front and a rear pointer,
  \<^verbatim>\<open>Stack\<close> (stack.py) one with a top pointer. The model is the list of the stored
  values, front (respectively top) first; \<^verbatim>\<open>_size\<close> is its length.
\<close>

type_synonym 'a queue = "'a list"

definition queue_is_empty :: "'a queue \<Rightarrow> bool" where
  "queue_is_empty q = (q = [])"

definition enqueue :: "'a queue \<Rightarrow> 'a \<Rightarrow> 'a queue" where
  "enqueue q v = q @ [v]"

definition dequeue :: "'a queue \<Rightarrow> error + ('a \<times> 'a queue)" where
  "dequeue q = (if queue_is_empty q then Inl EmptyContainer else Inr (hd q, tl q))"

definition queue_peek :: "'a queue \<Rightarrow> error + 'a" where
  "queue_peek q = (if queue_is_empty q then Inl EmptyContainer else Inr (hd q))"

definition queue_size :: "'a queue \<Rightarrow> nat" where
  "queue_size q = length q"

type_synonym 'a stack = "'a list"

definition stack_is_empty :: "'a stack \<Rightarrow> bool" where
  "stack_is_empty s = (s = [])"

definition push :: "'a stack \<Rightarrow> 'a \<Rightarrow> 'a stack" where
  "push s v = v # s"

definition pop :: "'a stack \<Rightarrow> error + ('a \<times> 'a stack)" where
  "pop s = (if stack_is_empty s then Inl EmptyContainer else Inr (hd s, tl s))"

definition stack_peek :: "'a stack \<Rightarrow> error + 'a" where
  "stack_peek s = (if stack_is_empty s then Inl EmptyContainer else Inr (hd s))"

definition stack_size :: "'a stack \<Rightarrow> nat" where
  "stack_size s = length s"

section \<open>Priority queue\<close>

text \<open>
  \<^verbatim>\<open>PriorityQueue\<close> (priority_queue.py) keeps \<^verbatim>\<open>_heap\<close>, a Python list of
  \<^verbatim>\<open>(priority, value)\<close> pairs laid out as a binary heap, and \<^verbatim>\<open>_size\<close>, which
  every method keeps equal to \<^verbatim>\<open>len(_heap)\<close>. The model is the list; \<^verbatim>\<open>_size\<close> is
  its length. Priorities are compared with \<^verbatim>\<open><\<close> only, values never.
\<close>

type_synonym ('p, 'a) pq = "('p \<times> 'a) list"

text \<open>The tuple assignment \<^verbatim>\<open>h[i], h[j] = h[j], h[i]\<close>.\<close>

definition swap :: "'a list \<Rightarrow> nat \<Rightarrow> nat \<Rightarrow> 'a list" where
  "swap h i j = h[i := h ! j, j := h ! i]"

text \<open>
  \<^verbatim>\<open>_heapify_up\<close>. For \<^verbatim>\<open>index = 0\<close> Python computes \<^verbatim>\<open>parent = -1\<close> and the
  natural-number model \<open>0\<close>; the guard \<^verbatim>\<open>index > 0\<close> is tested first, so the parent is
  read only when \<^verbatim>\<open>index > 0\<close>, where both agree.
\<close>

function heapify_up :: "('p::ord, 'a) pq \<Rightarrow> nat \<Rightarrow> ('p, 'a) pq" where
  "heapify_up h index =
     (let parent = (index - 1) div 2 in
      if index > 0 \<and> fst (h ! index) < fst (h ! parent)
      then heapify_up (swap h index parent) parent
      else h)"
  by pat_completeness auto
termination
  by (relation "measure (\<lambda>(h, index). index)") auto

declare heapify_up.simps [simp del]

text \<open>
  \<^verbatim>\<open>_heapify_down\<close>. Both children are read only below \<^verbatim>\<open>_size\<close>; the second
  comparison is against the smaller of the node and its left child.
\<close>

definition smallest_of :: "('p::ord, 'a) pq \<Rightarrow> nat \<Rightarrow> nat" where
  "smallest_of h index =
     (let smallest = index;
          left = 2 * index + 1;
          right = 2 * index + 2;
          smallest = (if left < length h \<and> fst (h ! left) < fst (h ! smallest)
                      then left else smallest);
          smallest = (if right < length h \<and> fst (h ! right) < fst (h ! smallest)
                      then right else smallest)
      in smallest)"

lemma smallest_of_cases:
  "smallest_of h i = i \<or> smallest_of h i = 2 * i + 1 \<or> smallest_of h i = 2 * i + 2"
  by (simp add: smallest_of_def Let_def)

lemma smallest_of_less: "smallest_of h i \<noteq> i \<Longrightarrow> smallest_of h i < length h"
  by (simp add: smallest_of_def Let_def split: if_splits)

lemma length_swap [simp]: "length (swap h i j) = length h"
  by (simp add: swap_def)

function heapify_down :: "('p::ord, 'a) pq \<Rightarrow> nat \<Rightarrow> ('p, 'a) pq" where
  "heapify_down h index =
     (let smallest = smallest_of h index in
      if smallest \<noteq> index
      then heapify_down (swap h index smallest) smallest
      else h)"
  by pat_completeness auto
termination
  apply (relation "measure (\<lambda>(h, index). length h - index)")
   apply simp
  subgoal for h index x
    using smallest_of_less [of h index] smallest_of_cases [of h index] by auto
  done

declare heapify_down.simps [simp del]

definition pq_is_empty :: "('p, 'a) pq \<Rightarrow> bool" where
  "pq_is_empty h = (length h = 0)"

definition pq_size :: "('p, 'a) pq \<Rightarrow> nat" where
  "pq_size h = length h"

definition insert_pq :: "('p::ord, 'a) pq \<Rightarrow> 'a \<Rightarrow> 'p \<Rightarrow> ('p, 'a) pq" where
  "insert_pq h v priority = heapify_up (h @ [(priority, v)]) (length h)"

definition extract_min :: "('p::ord, 'a) pq \<Rightarrow> error + (('p \<times> 'a) \<times> ('p, 'a) pq)" where
  "extract_min h =
     (if pq_is_empty h then Inl EmptyContainer
      else let min_item = h ! 0;
               h1 = h[0 := h ! (length h - 1)];
               h2 = butlast h1
           in Inr (min_item, if \<not> pq_is_empty h2 then heapify_down h2 0 else h2))"

definition peek_min :: "('p, 'a) pq \<Rightarrow> error + ('p \<times> 'a)" where
  "peek_min h = (if pq_is_empty h then Inl EmptyContainer else Inr (h ! 0))"

section \<open>Graph\<close>

text \<open>
  \<^verbatim>\<open>Graph.nodes\<close> maps a node value to its \<^verbatim>\<open>GraphNode\<close>, and a node's
  \<^verbatim>\<open>neighbors\<close> maps a neighbour to the edge weight. Python dictionaries keep
  insertion order, and assigning to a present key keeps its place: association lists
  with \<open>AList.update\<close>. A \<^verbatim>\<open>GraphNode\<close> hashes and compares by its value, and the only
  node objects the \<^verbatim>\<open>Graph\<close> methods ever store in a neighbour table are those of the
  registry, so a neighbour is recorded by its value.
\<close>

type_synonym 'v neighbors = "('v \<times> pynum) list"

record 'v graph =
  directed :: bool
  nodes :: "('v \<times> 'v neighbors) list"

definition new_graph :: "bool \<Rightarrow> 'v graph" where
  "new_graph d = \<lparr>directed = d, nodes = []\<rparr>"

definition add_neighbor :: "'v neighbors \<Rightarrow> 'v \<Rightarrow> pynum \<Rightarrow> 'v neighbors" where
  "add_neighbor ns neighbor weight = AList.update neighbor weight ns"

definition node_neighbors :: "'v neighbors \<Rightarrow> 'v list" where
  "node_neighbors ns = map fst ns"

definition get_weight :: "'v neighbors \<Rightarrow> 'v \<Rightarrow> pynum" where
  "get_weight ns neighbor = (case map_of ns neighbor of Some w \<Rightarrow> w | None \<Rightarrow> py_inf)"

definition get_node :: "'v graph \<Rightarrow> 'v \<Rightarrow> 'v neighbors option" where
  "get_node g v = map_of (nodes g) v"

definition add_node :: "'v graph \<Rightarrow> 'v \<Rightarrow> 'v graph" where
  "add_node g v =
     (if v \<notin> fst ` set (nodes g) then g\<lparr>nodes := nodes g @ [(v, [])]\<rparr> else g)"

definition add_edge :: "'v graph \<Rightarrow> 'v \<Rightarrow> 'v \<Rightarrow> pynum \<Rightarrow> 'v graph" where
  "add_edge g from_value to_value weight =
     (let g1 = add_node g from_value;
          g2 = add_node g1 to_value;
          g3 = g2\<lparr>nodes := AList.map_entry from_value
                   (\<lambda>ns. add_neighbor ns to_value weight) (nodes g2)\<rparr>
      in if \<not> directed g3
         then g3\<lparr>nodes := AList.map_entry to_value
                   (\<lambda>ns. add_neighbor ns from_value weight) (nodes g3)\<rparr>
         else g3)"

definition get_all_nodes :: "'v graph \<Rightarrow> 'v list" where
  "get_all_nodes g = map fst (nodes g)"

definition get_neighbors :: "'v graph \<Rightarrow> 'v \<Rightarrow> 'v list" where
  "get_neighbors g v = (case get_node g v of Some ns \<Rightarrow> node_neighbors ns | None \<Rightarrow> [])"

definition get_edge_weight :: "'v graph \<Rightarrow> 'v \<Rightarrow> 'v \<Rightarrow> pynum" where
  "get_edge_weight g from_value to_value =
     (case (get_node g from_value, get_node g to_value) of
        (Some from_node, Some to_node) \<Rightarrow> get_weight from_node to_value
      | _ \<Rightarrow> py_inf)"

section \<open>Search results and path reconstruction\<close>

text \<open>
  Every search returns a dictionary with the keys \<^verbatim>\<open>found\<close>, \<^verbatim>\<open>path\<close>,
  \<^verbatim>\<open>visited\<close> and \<^verbatim>\<open>nodes_explored\<close>; Dijkstra and A* add \<^verbatim>\<open>cost\<close>, which is
  absent (\<open>None\<close>) from the dictionaries of BFS and DFS. A search returns
  \<open>Some (Inr r)\<close> with its dictionary \<open>r\<close>, \<open>Some (Inl e)\<close> when it raises
  \<open>e\<close>, and \<open>None\<close> when it does not return.
\<close>

record 'v result =
  found :: bool
  path :: "'v list"
  cost :: "pynum option"
  visited :: "'v list"
  nodes_explored :: nat

partial_function (option) walk_back ::
  "('v \<rightharpoonup> 'v option) \<Rightarrow> 'v option \<Rightarrow> 'v list \<Rightarrow> (error + 'v list) option" where
  "walk_back parent node acc =
     (case node of
        None \<Rightarrow> Some (Inr acc)
      | Some n \<Rightarrow>
          (case parent n of
             None \<Rightarrow> Some (Inl KeyError)
           | Some m \<Rightarrow> walk_back parent m (acc @ [n])))"

partial_function (option) walk_back_get ::
  "('v \<rightharpoonup> 'v option) \<Rightarrow> 'v option \<Rightarrow> 'v list \<Rightarrow> 'v list option" where
  "walk_back_get parent node acc =
     (case node of
        None \<Rightarrow> Some acc
      | Some n \<Rightarrow>
          walk_back_get parent (case parent n of None \<Rightarrow> None | Some m \<Rightarrow> m) (acc @ [n]))"

declare walk_back.simps [code]
declare walk_back_get.simps [code]

definition neighbors_of :: "'v graph \<Rightarrow> 'v \<Rightarrow> 'v neighbors" where
  "neighbors_of g v = (case get_node g v of Some ns \<Rightarrow> ns | None \<Rightarrow> [])"

fun bfs_for ::
  "'v \<Rightarrow> 'v list \<Rightarrow> 'v queue \<Rightarrow> 'v set \<Rightarrow> ('v \<rightharpoonup> 'v option) \<Rightarrow> 'v list
   \<Rightarrow> 'v queue \<times> 'v set \<times> ('v \<rightharpoonup> 'v option) \<times> 'v list" where
  "bfs_for current [] queue vis parent visited_order = (queue, vis, parent, visited_order)"
| "bfs_for current (neighbor # rest) queue vis parent visited_order =
     (if neighbor \<notin> vis
      then bfs_for current rest (enqueue queue neighbor) (insert neighbor vis)
             (parent(neighbor \<mapsto> Some current)) (visited_order @ [neighbor])
      else bfs_for current rest queue vis parent visited_order)"

definition universe :: "'v graph \<Rightarrow> 'v set" where
  "universe g = (\<Union>(v, ns) \<in> set (nodes g). insert v (fst ` set ns))"

lemma finite_universe [simp]: "finite (universe g)"
  by (auto simp: universe_def)

lemma get_neighbors_universe: "set (get_neighbors g v) \<subseteq> universe g"
proof (cases "map_of (nodes g) v")
  case None
  then show ?thesis by (simp add: get_neighbors_def get_node_def)
next
  case (Some ns)
  then have "(v, ns) \<in> set (nodes g)" by (rule map_of_SomeD)
  then have "fst ` set ns \<subseteq> universe g" unfolding universe_def by blast
  with Some show ?thesis by (simp add: get_neighbors_def get_node_def node_neighbors_def)
qed

lemma bfs_for_vis:
  "bfs_for c ns q vis p vo = (q', vis', p', vo') \<Longrightarrow> vis \<subseteq> vis' \<and> vis' \<subseteq> vis \<union> set ns"
  by (induction c ns q vis p vo rule: bfs_for.induct) (auto split: if_splits)

lemma bfs_for_same:
  "bfs_for c ns q vis p vo = (q', vis', p', vo') \<Longrightarrow> set ns \<subseteq> vis \<Longrightarrow> q' = q \<and> vis' = vis"
  by (induction c ns q vis p vo rule: bfs_for.induct) (auto split: if_splits)

lemma bfs_for_grow:
  "bfs_for c ns q vis p vo = (q', vis', p', vo') \<Longrightarrow> \<not> set ns \<subseteq> vis \<Longrightarrow> vis \<subset> vis'"
proof (induction ns arbitrary: q vis p vo)
  case Nil then show ?case by simp
next
  case (Cons n ns)
  show ?case
  proof (cases "n \<in> vis")
    case True
    with Cons show ?thesis by auto
  next
    case False
    with Cons.prems have "insert n vis \<subseteq> vis'"
      using bfs_for_vis [of c ns "enqueue q n" "insert n vis" _ _ q' vis' p' vo'] by simp
    with False show ?thesis by auto
  qed
qed

subsection \<open>Breadth-first search\<close>

function bfs_while ::
  "'v graph \<Rightarrow> 'v \<Rightarrow> 'v queue \<Rightarrow> 'v set \<Rightarrow> ('v \<rightharpoonup> 'v option) \<Rightarrow> 'v list
   \<Rightarrow> (error + 'v result) option" where
  "bfs_while g goal queue vis parent visited_order =
     (if queue_is_empty queue
      then Some (Inr \<lparr>found = False, path = [], cost = None,
                      visited = visited_order, nodes_explored = card vis\<rparr>)
      else case dequeue queue of
        Inl e \<Rightarrow> Some (Inl e)
      | Inr (current, queue1) \<Rightarrow>
          if current = goal
          then (case walk_back parent (Some goal) [] of
                  None \<Rightarrow> None
                | Some (Inl e) \<Rightarrow> Some (Inl e)
                | Some (Inr p) \<Rightarrow>
                    Some (Inr \<lparr>found = True, path = rev p, cost = None,
                               visited = visited_order, nodes_explored = card vis\<rparr>))
          else (case bfs_for current (get_neighbors g current) queue1 vis parent visited_order of
                  (queue2, vis2, parent2, visited_order2) \<Rightarrow>
                    bfs_while g goal queue2 vis2 parent2 visited_order2))"
  by pat_completeness auto
termination
proof (relation "(\<lambda>(g, goal, queue, vis, parent, vo). card (universe g - vis)) <*mlex*>
                 measure (\<lambda>(g, goal, queue, vis, parent, vo). length queue)")
  show "wf ((\<lambda>(g, goal, queue, vis, parent, vo). card (universe g - vis)) <*mlex*>
                 measure (\<lambda>(g, goal, queue, vis, parent, vo). length queue))"
    by (simp add: wf_mlex)
next
  fix g :: "'v graph" and goal queue vis parent visited_order x2 x y xa ya xb yb xc yc
  assume ne: "\<not> queue_is_empty queue" and dq: "dequeue queue = Inr x2" and x2: "(x, y) = x2"
    and "x \<noteq> goal"
    and bf: "(xa, ya) = bfs_for x (get_neighbors g x) y vis parent visited_order"
    and "(xb, yb) = ya" "(xc, yc) = yb"
  have y: "y = tl queue" "queue \<noteq> []" using ne dq x2 by (auto simp: dequeue_def queue_is_empty_def)
  have bf': "bfs_for x (get_neighbors g x) y vis parent visited_order = (xa, xb, xc, yc)"
    using bf \<open>(xb, yb) = ya\<close> \<open>(xc, yc) = yb\<close> by simp
  show "((g, goal, xa, xb, xc, yc), (g, goal, queue, vis, parent, visited_order))
       \<in> (\<lambda>(g, goal, queue, vis, parent, vo). card (universe g - vis)) <*mlex*>
                 measure (\<lambda>(g, goal, queue, vis, parent, vo). length queue)"
  proof (cases "set (get_neighbors g x) \<subseteq> vis")
    case True
    then have "xa = y" "xb = vis" using bfs_for_same [OF bf'] by auto
    then show ?thesis using y by (auto simp: mlex_prod_def)
  next
    case False
    then have sub: "vis \<subset> xb" using bfs_for_grow [OF bf'] by simp
    have "xb \<subseteq> vis \<union> universe g" using bfs_for_vis [OF bf'] get_neighbors_universe [of g x] by auto
    then have "universe g - xb \<subset> universe g - vis" using sub by auto
    then have "card (universe g - xb) < card (universe g - vis)"
      by (intro psubset_card_mono) auto
    then show ?thesis by (auto simp: mlex_prod_def)
  qed
qed

declare bfs_while.simps [simp del]

subsection \<open>Depth-first search\<close>

fun dfs_for ::
  "'v \<Rightarrow> 'v set \<Rightarrow> 'v list \<Rightarrow> ('v \<rightharpoonup> 'v option) \<Rightarrow> 'v stack
   \<Rightarrow> ('v \<rightharpoonup> 'v option) \<times> 'v stack" where
  "dfs_for current vis [] parent stack = (parent, stack)"
| "dfs_for current vis (neighbor # rest) parent stack =
     (if neighbor \<notin> vis
      then dfs_for current vis rest
             (if parent neighbor = None then parent(neighbor \<mapsto> Some current) else parent)
             (push stack neighbor)
      else dfs_for current vis rest parent stack)"

lemma dfs_for_stack:
  "set (snd (dfs_for c vis ns p st)) \<subseteq> set st \<union> set ns"
  by (induction c vis ns p st rule: dfs_for.induct) (auto simp: push_def)

function dfs_while ::
  "'v graph \<Rightarrow> 'v \<Rightarrow> 'v stack \<Rightarrow> 'v set \<Rightarrow> ('v \<rightharpoonup> 'v option) \<Rightarrow> 'v list
   \<Rightarrow> (error + 'v result) option" where
  "dfs_while g goal stack vis parent visited_order =
     (if stack_is_empty stack
      then Some (Inr \<lparr>found = False, path = [], cost = None,
                      visited = visited_order, nodes_explored = card vis\<rparr>)
      else case pop stack of
        Inl e \<Rightarrow> Some (Inl e)
      | Inr (current, stack1) \<Rightarrow>
          if current \<in> vis
          then dfs_while g goal stack1 vis parent visited_order
          else let vis1 = insert current vis;
                   visited_order1 = visited_order @ [current]
               in if current = goal
                  then (case walk_back parent (Some goal) [] of
                          None \<Rightarrow> None
                        | Some (Inl e) \<Rightarrow> Some (Inl e)
                        | Some (Inr p) \<Rightarrow>
                            Some (Inr \<lparr>found = True, path = rev p, cost = None,
                                       visited = visited_order1,
                                       nodes_explored = card vis1\<rparr>))
                  else (case dfs_for current vis1 (rev (get_neighbors g current)) parent stack1 of
                          (parent2, stack2) \<Rightarrow>
                            dfs_while g goal stack2 vis1 parent2 visited_order1))"
  by pat_completeness auto
termination
proof (relation "(\<lambda>(g, goal, stack, vis, parent, vo). card ((universe g \<union> set stack) - vis)) <*mlex*>
                 measure (\<lambda>(g, goal, stack, vis, parent, vo). length stack)",
       goal_cases)
  case 1
  show ?case by (simp add: wf_mlex)
next
  case (2 g goal stack vis parent visited_order b x y)
  then have y: "stack = x # y" by (auto simp: pop_def stack_is_empty_def)
  have "card ((universe g \<union> set y) - vis) \<le> card ((universe g \<union> set stack) - vis)"
    using y by (intro card_mono) auto
  then show ?case using y by (intro mlex_leq) auto
next
  case (3 g goal stack vis parent visited_order b x y xa xb xc ya)
  then have y: "stack = x # y" by (auto simp: pop_def stack_is_empty_def)
  have "set ya \<subseteq> set y \<union> universe g"
    using dfs_for_stack [of x xa "rev (get_neighbors g x)" parent y] 3(8) [symmetric]
      get_neighbors_universe [of g x] by auto
  then have "(universe g \<union> set ya) - xa \<subset> (universe g \<union> set stack) - vis"
    using y 3(4,5) by auto
  then have "card ((universe g \<union> set ya) - xa) < card ((universe g \<union> set stack) - vis)"
    by (intro psubset_card_mono) auto
  then show ?case by (intro mlex_less) auto
qed

declare dfs_while.simps [simp del]

subsection \<open>The heap keeps its entries\<close>

lemma mset_swap_heap:
  "i < length h \<Longrightarrow> j < length h \<Longrightarrow> mset (swap h i j) = mset h"
  unfolding swap_def by (simp add: mset_swap)

lemma mset_heapify_up: "index < length h \<Longrightarrow> mset (heapify_up h index) = mset h"
proof (induction h index rule: heapify_up.induct)
  case (1 h index)
  show ?case
  proof (cases "index > 0 \<and> fst (h ! index) < fst (h ! ((index - 1) div 2))")
    case True
    then have lt: "(index - 1) div 2 < length h" using "1.prems" by simp
    have "mset (heapify_up (swap h index ((index - 1) div 2)) ((index - 1) div 2))
          = mset (swap h index ((index - 1) div 2))"
      using "1.IH" [OF refl] True lt by simp
    then show ?thesis
      using True lt "1.prems" by (subst heapify_up.simps) (simp add: mset_swap_heap Let_def)
  next
    case False
    then show ?thesis by (subst heapify_up.simps) (auto simp: Let_def)
  qed
qed

lemma mset_heapify_down: "mset (heapify_down h index) = mset h"
proof (induction h index rule: heapify_down.induct)
  case (1 h index)
  show ?case
  proof (cases "smallest_of h index = index")
    case True
    then show ?thesis by (subst heapify_down.simps) (simp add: Let_def)
  next
    case False
    have lt: "smallest_of h index < length h" using smallest_of_less [OF False] .
    have "index < smallest_of h index" using smallest_of_cases [of h index] False by auto
    then have "index < length h" using lt by simp
    then show ?thesis
      using "1.IH" [OF refl False] False lt
      by (subst heapify_down.simps) (simp add: mset_swap_heap Let_def)
  qed
qed

lemma mset_insert_pq: "mset (insert_pq h v p) = add_mset (p, v) (mset h)"
  by (simp add: insert_pq_def mset_heapify_up)

lemma mset_butlast_upd:
  "h \<noteq> [] \<Longrightarrow> add_mset (h ! 0) (mset (butlast (h[0 := h ! (length h - 1)]))) = mset h"
proof (cases h)
  case Nil
  assume "h \<noteq> []" with Nil show ?thesis by simp
next
  case (Cons x xs)
  show ?thesis
  proof (cases "xs = []")
    case True with Cons show ?thesis by simp
  next
    case False
    then have "xs ! (length xs - 1) = last xs" by (simp add: last_conv_nth)
    moreover have "add_mset (last xs) (mset (butlast xs)) = mset xs"
      using False by (metis append_butlast_last_id mset.simps(2) mset_rev rev.simps(2) mset_append)
    ultimately show ?thesis using Cons False by (simp add: nth_Cons')
  qed
qed

lemma mset_extract_min:
  assumes "extract_min h = Inr (m, h')"
  shows "mset h = add_mset m (mset h')"
proof -
  from assms have ne: "h \<noteq> []" and m: "m = h ! 0"
    and h': "mset h' = mset (butlast (h[0 := h ! (length h - 1)]))"
    by (auto simp: extract_min_def pq_is_empty_def Let_def mset_heapify_down split: if_splits)
  show ?thesis using mset_butlast_upd [OF ne] m h' by simp
qed

lemma extract_min_Inl: "extract_min h = Inl e \<longleftrightarrow> h = [] \<and> e = EmptyContainer"
  by (auto simp: extract_min_def pq_is_empty_def Let_def)

lemma length_extract_min: "extract_min h = Inr (m, h') \<Longrightarrow> length h = Suc (length h')"
  using mset_extract_min [of h m h'] by (metis size_add_mset size_mset)

lemma set_extract_min: "extract_min h = Inr (m, h') \<Longrightarrow> set h = insert m (set h')"
  using mset_extract_min [of h m h'] by (metis set_mset_add_mset_insert set_mset_mset)

lemma set_insert_pq: "set (insert_pq h v p) = insert (p, v) (set h)"
  using mset_insert_pq [of h v p] by (metis set_mset_add_mset_insert set_mset_mset)

subsection \<open>Dijkstra's algorithm\<close>

text \<open>
  The loop over \<^verbatim>\<open>current.get_neighbors()\<close>. The subscripts \<^verbatim>\<open>distance[current]\<close> and
  \<^verbatim>\<open>distance[neighbor]\<close> raise \<^verbatim>\<open>KeyError\<close> on a node that is not a key of the table,
  and the addition raises when it has to convert too large an integer.
\<close>

fun dijkstra_for ::
  "'v \<Rightarrow> 'v neighbors \<Rightarrow> 'v list \<Rightarrow> 'v set \<Rightarrow> ('v \<rightharpoonup> pynum) \<Rightarrow> ('v \<rightharpoonup> 'v option)
   \<Rightarrow> (pynum, 'v) pq
   \<Rightarrow> error + (('v \<rightharpoonup> pynum) \<times> ('v \<rightharpoonup> 'v option) \<times> (pynum, 'v) pq)" where
  "dijkstra_for current cur_ns [] vis distance parent pq = Inr (distance, parent, pq)"
| "dijkstra_for current cur_ns (neighbor # rest) vis distance parent pq =
     (if neighbor \<in> vis
      then dijkstra_for current cur_ns rest vis distance parent pq
      else let edge_weight = get_weight cur_ns neighbor in
           case distance current of
             None \<Rightarrow> Inl KeyError
           | Some dc \<Rightarrow>
               (case py_add dc edge_weight of
                  Inl e \<Rightarrow> Inl e
                | Inr new_distance \<Rightarrow>
                    (case distance neighbor of
                       None \<Rightarrow> Inl KeyError
                     | Some dn \<Rightarrow>
                         if new_distance < dn
                         then dijkstra_for current cur_ns rest vis
                                (distance(neighbor \<mapsto> new_distance))
                                (parent(neighbor \<mapsto> Some current))
                                (insert_pq pq neighbor new_distance)
                         else dijkstra_for current cur_ns rest vis distance parent pq)))"

lemma dijkstra_for_pq:
  "dijkstra_for c cns ns vis d p pq = Inr (d', p', pq') \<Longrightarrow> snd ` set pq' \<subseteq> snd ` set pq \<union> set ns"
proof (induction ns arbitrary: d p pq)
  case Nil
  then show ?case by simp
next
  case (Cons n ns)
  show ?case
  proof (cases "n \<in> vis")
    case True
    with Cons.prems have "dijkstra_for c cns ns vis d p pq = Inr (d', p', pq')" by simp
    from Cons.IH [OF this] show ?thesis by auto
  next
    case False
    with Cons.prems obtain dc t dn where dc: "d c = Some dc"
      and t: "py_add dc (get_weight cns n) = Inr t" and dn: "d n = Some dn"
      by (auto simp: Let_def split: option.splits sum.splits)
    show ?thesis
    proof (cases "t < dn")
      case True
      with Cons.prems False dc t dn
      have "dijkstra_for c cns ns vis (d(n \<mapsto> t)) (p(n \<mapsto> Some c)) (insert_pq pq n t)
            = Inr (d', p', pq')" by (simp add: Let_def)
      from Cons.IH [OF this] show ?thesis by (auto simp: set_insert_pq)
    next
      case lt: False
      with Cons.prems False dc t dn
      have "dijkstra_for c cns ns vis d p pq = Inr (d', p', pq')" by (simp add: Let_def)
      from Cons.IH [OF this] show ?thesis by auto
    qed
  qed
qed

function dijkstra_while ::
  "'v graph \<Rightarrow> 'v \<Rightarrow> (pynum, 'v) pq \<Rightarrow> 'v set \<Rightarrow> ('v \<rightharpoonup> pynum) \<Rightarrow> ('v \<rightharpoonup> 'v option)
   \<Rightarrow> 'v list \<Rightarrow> (error + 'v result) option" where
  "dijkstra_while g goal pq vis distance parent visited_order =
     (if pq_is_empty pq
      then Some (Inr \<lparr>found = False, path = [], cost = Some py_inf,
                      visited = visited_order, nodes_explored = card vis\<rparr>)
      else case extract_min pq of
        Inl e \<Rightarrow> Some (Inl e)
      | Inr ((current_dist, current), pq1) \<Rightarrow>
          if current \<in> vis
          then dijkstra_while g goal pq1 vis distance parent visited_order
          else let vis1 = insert current vis;
                   visited_order1 = visited_order @ [current]
               in if current = goal
                  then (case walk_back_get parent (Some goal) [] of
                          None \<Rightarrow> None
                        | Some p \<Rightarrow>
                            (case distance goal of
                               None \<Rightarrow> Some (Inl KeyError)
                             | Some c \<Rightarrow>
                                 Some (Inr \<lparr>found = True, path = rev p, cost = Some c,
                                            visited = visited_order1,
                                            nodes_explored = card vis1\<rparr>)))
                  else (case dijkstra_for current (neighbors_of g current)
                               (get_neighbors g current) vis1 distance parent pq1 of
                          Inl e \<Rightarrow> Some (Inl e)
                        | Inr (distance2, parent2, pq2) \<Rightarrow>
                            dijkstra_while g goal pq2 vis1 distance2 parent2 visited_order1))"
  by pat_completeness auto
termination
proof (relation "(\<lambda>(g, goal, pq, vis, distance, parent, vo).
                    card ((universe g \<union> snd ` set pq) - vis)) <*mlex*>
                 measure (\<lambda>(g, goal, pq, vis, distance, parent, vo). length pq)",
       goal_cases)
  case 1
  show ?case by (simp add: wf_mlex)
next
  case (2 g goal pq vis distance parent visited_order b x y xa ya)
  then have ex: "extract_min pq = Inr ((xa, ya), y)" by simp
  have "card ((universe g \<union> snd ` set y) - vis) \<le> card ((universe g \<union> snd ` set pq) - vis)"
    using set_extract_min [OF ex] by (intro card_mono) auto
  then show ?case using length_extract_min [OF ex] by (intro mlex_leq) auto
next
  case (3 g goal pq vis distance parent visited_order b x y xa ya xb xc b2 xd yd xe ye)
  then have ex: "extract_min pq = Inr ((xa, ya), y)" by simp
  from 3 have df: "dijkstra_for ya (neighbors_of g ya) (get_neighbors g ya) xb distance parent y
                   = Inr (xd, xe, ye)" by simp
  from 3 have xb: "xb = insert ya vis" and nin: "ya \<notin> vis" by auto
  have "snd ` set ye \<subseteq> snd ` set y \<union> universe g"
    using dijkstra_for_pq [OF df] get_neighbors_universe [of g ya] by auto
  moreover have "ya \<in> snd ` set pq" "snd ` set y \<subseteq> snd ` set pq"
    using set_extract_min [OF ex] by force+
  ultimately have "(universe g \<union> snd ` set ye) - xb \<subset> (universe g \<union> snd ` set pq) - vis"
    using xb nin by auto
  then have "card ((universe g \<union> snd ` set ye) - xb) < card ((universe g \<union> snd ` set pq) - vis)"
    by (intro psubset_card_mono) auto
  then show ?case by (intro mlex_less) auto
qed

declare dijkstra_while.simps [simp del]

subsection \<open>A*\<close>

text \<open>
  A heuristic is a total function from two node values to a number. The entry
  \<^verbatim>\<open>g_score[neighbor]\<close> is read back at once for the sum with the heuristic, and
  \<^verbatim>\<open>f_score[neighbor]\<close> for the priority of the insertion.
\<close>

fun astar_for ::
  "('v \<Rightarrow> 'v \<Rightarrow> pynum) \<Rightarrow> 'v \<Rightarrow> 'v \<Rightarrow> 'v neighbors \<Rightarrow> 'v list \<Rightarrow> 'v set
   \<Rightarrow> ('v \<rightharpoonup> pynum) \<Rightarrow> ('v \<rightharpoonup> pynum) \<Rightarrow> ('v \<rightharpoonup> 'v option) \<Rightarrow> (pynum, 'v) pq
   \<Rightarrow> error + (('v \<rightharpoonup> pynum) \<times> ('v \<rightharpoonup> pynum) \<times> ('v \<rightharpoonup> 'v option) \<times> (pynum, 'v) pq)" where
  "astar_for heuristic goal_value current cur_ns [] vis g_score f_score parent pq =
     Inr (g_score, f_score, parent, pq)"
| "astar_for heuristic goal_value current cur_ns (neighbor # rest) vis g_score f_score parent pq =
     (if neighbor \<in> vis
      then astar_for heuristic goal_value current cur_ns rest vis g_score f_score parent pq
      else case g_score current of
             None \<Rightarrow> Inl KeyError
           | Some gc \<Rightarrow>
               (case py_add gc (get_weight cur_ns neighbor) of
                  Inl e \<Rightarrow> Inl e
                | Inr tentative_g_score \<Rightarrow>
                    (case g_score neighbor of
                       None \<Rightarrow> Inl KeyError
                     | Some gn \<Rightarrow>
                         if tentative_g_score < gn
                         then let parent1 = parent(neighbor \<mapsto> Some current);
                                  g_score1 = g_score(neighbor \<mapsto> tentative_g_score)
                              in case py_add tentative_g_score (heuristic neighbor goal_value) of
                                   Inl e \<Rightarrow> Inl e
                                 | Inr f \<Rightarrow>
                                     astar_for heuristic goal_value current cur_ns rest vis
                                       g_score1 (f_score(neighbor \<mapsto> f)) parent1
                                       (insert_pq pq neighbor f)
                         else astar_for heuristic goal_value current cur_ns rest vis
                                g_score f_score parent pq)))"

lemma astar_for_pq:
  "astar_for h goal c cns ns vis gs fs p pq = Inr (gs', fs', p', pq')
   \<Longrightarrow> snd ` set pq' \<subseteq> snd ` set pq \<union> set ns"
proof (induction ns arbitrary: gs fs p pq)
  case Nil
  then show ?case by simp
next
  case (Cons n ns)
  show ?case
  proof (cases "n \<in> vis")
    case True
    with Cons.prems have "astar_for h goal c cns ns vis gs fs p pq = Inr (gs', fs', p', pq')"
      by simp
    from Cons.IH [OF this] show ?thesis by auto
  next
    case False
    with Cons.prems obtain gc t gn where gc: "gs c = Some gc"
      and t: "py_add gc (get_weight cns n) = Inr t" and gn: "gs n = Some gn"
      by (auto simp: Let_def split: option.splits sum.splits)
    show ?thesis
    proof (cases "t < gn")
      case True
      with Cons.prems False gc t gn obtain f where f: "py_add t (h n goal) = Inr f"
        by (auto simp: Let_def split: sum.splits)
      with Cons.prems False gc t gn True
      have "astar_for h goal c cns ns vis (gs(n \<mapsto> t)) (fs(n \<mapsto> f)) (p(n \<mapsto> Some c))
              (insert_pq pq n f) = Inr (gs', fs', p', pq')" by (simp add: Let_def)
      from Cons.IH [OF this] show ?thesis by (auto simp: set_insert_pq)
    next
      case lt: False
      with Cons.prems False gc t gn
      have "astar_for h goal c cns ns vis gs fs p pq = Inr (gs', fs', p', pq')"
        by (simp add: Let_def)
      from Cons.IH [OF this] show ?thesis by auto
    qed
  qed
qed

function astar_while ::
  "('v \<Rightarrow> 'v \<Rightarrow> pynum) \<Rightarrow> 'v graph \<Rightarrow> 'v \<Rightarrow> (pynum, 'v) pq \<Rightarrow> 'v set
   \<Rightarrow> ('v \<rightharpoonup> pynum) \<Rightarrow> ('v \<rightharpoonup> pynum) \<Rightarrow> ('v \<rightharpoonup> 'v option) \<Rightarrow> 'v list
   \<Rightarrow> (error + 'v result) option" where
  "astar_while heuristic g goal pq vis g_score f_score parent visited_order =
     (if pq_is_empty pq
      then Some (Inr \<lparr>found = False, path = [], cost = Some py_inf,
                      visited = visited_order, nodes_explored = card vis\<rparr>)
      else case extract_min pq of
        Inl e \<Rightarrow> Some (Inl e)
      | Inr ((current_f, current), pq1) \<Rightarrow>
          if current \<in> vis
          then astar_while heuristic g goal pq1 vis g_score f_score parent visited_order
          else let vis1 = insert current vis;
                   visited_order1 = visited_order @ [current]
               in if current = goal
                  then (case walk_back_get parent (Some goal) [] of
                          None \<Rightarrow> None
                        | Some p \<Rightarrow>
                            (case g_score goal of
                               None \<Rightarrow> Some (Inl KeyError)
                             | Some c \<Rightarrow>
                                 Some (Inr \<lparr>found = True, path = rev p, cost = Some c,
                                            visited = visited_order1,
                                            nodes_explored = card vis1\<rparr>)))
                  else (case astar_for heuristic goal current (neighbors_of g current)
                               (get_neighbors g current) vis1 g_score f_score parent pq1 of
                          Inl e \<Rightarrow> Some (Inl e)
                        | Inr (g_score2, f_score2, parent2, pq2) \<Rightarrow>
                            astar_while heuristic g goal pq2 vis1 g_score2 f_score2 parent2
                              visited_order1))"
  by pat_completeness auto
termination
proof (relation "(\<lambda>(h, g, goal, pq, vis, gs, fs, parent, vo).
                    card ((universe g \<union> snd ` set pq) - vis)) <*mlex*>
                 measure (\<lambda>(h, g, goal, pq, vis, gs, fs, parent, vo). length pq)",
       goal_cases)
  case 1
  show ?case by (simp add: wf_mlex)
next
  case (2 h g goal pq vis gs fs parent visited_order b x y xa ya)
  then have ex: "extract_min pq = Inr ((xa, ya), y)" by simp
  have "card ((universe g \<union> snd ` set y) - vis) \<le> card ((universe g \<union> snd ` set pq) - vis)"
    using set_extract_min [OF ex] by (intro card_mono) auto
  then show ?case using length_extract_min [OF ex] by (intro mlex_leq) auto
next
  case (3 h g goal pq vis gs fs parent visited_order b x y xa ya xb xc b2 xd yd xe ye xf yf)
  then have ex: "extract_min pq = Inr ((xa, ya), y)" by simp
  from 3 have df: "astar_for h goal ya (neighbors_of g ya) (get_neighbors g ya) xb gs fs parent y
                   = Inr (xd, xe, xf, yf)" by simp
  from 3 have xb: "xb = insert ya vis" and nin: "ya \<notin> vis" by auto
  have "snd ` set yf \<subseteq> snd ` set y \<union> universe g"
    using astar_for_pq [OF df] get_neighbors_universe [of g ya] by auto
  moreover have "ya \<in> snd ` set pq" "snd ` set y \<subseteq> snd ` set pq"
    using set_extract_min [OF ex] by force+
  ultimately have "(universe g \<union> snd ` set yf) - xb \<subset> (universe g \<union> snd ` set pq) - vis"
    using xb nin by auto
  then have "card ((universe g \<union> snd ` set yf) - xb) < card ((universe g \<union> snd ` set pq) - vis)"
    by (intro psubset_card_mono) auto
  then show ?case by (intro mlex_less) auto
qed

declare astar_while.simps [simp del]

section \<open>The four searches\<close>

text \<open>
  A \<^verbatim>\<open>GraphNode\<close> defines neither \<^verbatim>\<open>__bool__\<close> nor \<^verbatim>\<open>__len__\<close>, so
  \<^verbatim>\<open>not start_node\<close> holds exactly when \<^verbatim>\<open>get_node\<close> returned \<^verbatim>\<open>None\<close>.
\<close>

definition not_found_early :: "pynum option \<Rightarrow> 'v result" where
  "not_found_early c = \<lparr>found = False, path = [], cost = c, visited = [], nodes_explored = 0\<rparr>"

definition breadth_first_search :: "'v graph \<Rightarrow> 'v \<Rightarrow> 'v \<Rightarrow> (error + 'v result) option" where
  "breadth_first_search g start_value goal_value =
     (case (get_node g start_value, get_node g goal_value) of
        (Some start_node, Some goal_node) \<Rightarrow>
          bfs_while g goal_value (enqueue [] start_value) {start_value}
            [start_value \<mapsto> None] [start_value]
      | _ \<Rightarrow> Some (Inr (not_found_early None)))"

definition depth_first_search :: "'v graph \<Rightarrow> 'v \<Rightarrow> 'v \<Rightarrow> (error + 'v result) option" where
  "depth_first_search g start_value goal_value =
     (case (get_node g start_value, get_node g goal_value) of
        (Some start_node, Some goal_node) \<Rightarrow>
          dfs_while g goal_value (push [] start_value) {} [start_value \<mapsto> None] []
      | _ \<Rightarrow> Some (Inr (not_found_early None)))"

definition inf_table :: "'v graph \<Rightarrow> 'v \<rightharpoonup> pynum" where
  "inf_table g = map_of (map (\<lambda>node. (node, py_inf)) (get_all_nodes g))"

definition dijkstra :: "'v graph \<Rightarrow> 'v \<Rightarrow> 'v \<Rightarrow> (error + 'v result) option" where
  "dijkstra g start_value goal_value =
     (case (get_node g start_value, get_node g goal_value) of
        (Some start_node, Some goal_node) \<Rightarrow>
          dijkstra_while g goal_value (insert_pq [] start_value (PInt 0)) {}
            ((inf_table g)(start_value \<mapsto> PInt 0)) [start_value \<mapsto> None] []
      | _ \<Rightarrow> Some (Inr (not_found_early (Some py_inf))))"

definition astar ::
  "'v graph \<Rightarrow> 'v \<Rightarrow> 'v \<Rightarrow> ('v \<Rightarrow> 'v \<Rightarrow> pynum) \<Rightarrow> (error + 'v result) option" where
  "astar g start_value goal_value heuristic =
     (case (get_node g start_value, get_node g goal_value) of
        (Some start_node, Some goal_node) \<Rightarrow>
          let f_start = heuristic start_value goal_value
          in astar_while heuristic g goal_value (insert_pq [] start_value f_start) {}
               ((inf_table g)(start_value \<mapsto> PInt 0)) ((inf_table g)(start_value \<mapsto> f_start))
               [start_value \<mapsto> None] []
      | _ \<Rightarrow> Some (Inr (not_found_early (Some py_inf))))"

text \<open>\<^verbatim>\<open>zero_heuristic\<close> returns the float \<^verbatim>\<open>0.0\<close>.\<close>

definition zero_heuristic :: "'v \<Rightarrow> 'v \<Rightarrow> pynum" where
  "zero_heuristic node1 node2 = PFloat (Finite 0)"

section \<open>Graphs built by the interface\<close>

text \<open>
  Every graph built from \<^verbatim>\<open>Graph()\<close> by \<^verbatim>\<open>add_node\<close> and \<^verbatim>\<open>add_edge\<close> has one
  registry entry per value, one neighbour entry per neighbour, and only registered
  nodes as neighbours.
\<close>

definition wf_graph :: "'v graph \<Rightarrow> bool" where
  "wf_graph g =
     (distinct (map fst (nodes g)) \<and>
      (\<forall>node \<in> set (nodes g).
         distinct (map fst (snd node)) \<and> fst ` set (snd node) \<subseteq> fst ` set (nodes g)))"

lemma wf_graphD:
  "wf_graph g \<Longrightarrow> (v, ns) \<in> set (nodes g)
   \<Longrightarrow> distinct (map fst ns) \<and> fst ` set ns \<subseteq> fst ` set (nodes g)"
  unfolding wf_graph_def by (metis snd_conv)

lemma wf_graph_new: "wf_graph (new_graph d)"
  by (simp add: wf_graph_def new_graph_def)

lemma wf_graph_add_node: "wf_graph g \<Longrightarrow> wf_graph (add_node g v)"
  unfolding wf_graph_def add_node_def by (simp add: subset_insertI2)

lemma map_fst_map_entry: "map fst (AList.map_entry k f xs) = map fst xs"
  by (induction xs) auto

lemma set_map_entry:
  "set (AList.map_entry k f xs) \<subseteq> set xs \<union> {(k, f v) | v. (k, v) \<in> set xs}"
  by (induction xs) auto

lemma fst_set_update: "fst ` set (AList.update k v xs) = insert k (fst ` set xs)"
  using AList.dom_update [of k v xs] by (simp add: dom_map_of_conv_image_fst)

lemma wf_graph_map_entry:
  assumes "wf_graph g" "n \<in> fst ` set (nodes g)"
  shows "wf_graph (g\<lparr>nodes := AList.map_entry k (\<lambda>ns. add_neighbor ns n w) (nodes g)\<rparr>)"
proof -
  let ?xs = "AList.map_entry k (\<lambda>ns. add_neighbor ns n w) (nodes g)"
  have keys: "map fst ?xs = map fst (nodes g)" by (rule map_fst_map_entry)
  have "distinct (map fst ns') \<and> fst ` set ns' \<subseteq> fst ` set (nodes g)"
    if "(v, ns') \<in> set ?xs" for v ns'
  proof -
    from that set_map_entry [of k "\<lambda>ns. add_neighbor ns n w" "nodes g"]
    consider "(v, ns') \<in> set (nodes g)"
      | ns where "(k, ns) \<in> set (nodes g)" "ns' = add_neighbor ns n w" by auto
    then show ?thesis
    proof cases
      case 1
      with assms show ?thesis by (simp add: wf_graphD)
    next
      case 2
      with assms(1) have "distinct (map fst ns)" "fst ` set ns \<subseteq> fst ` set (nodes g)"
        by (simp_all add: wf_graphD)
      with 2 assms(2) show ?thesis
        by (auto simp: add_neighbor_def distinct_update fst_set_update)
    qed
  qed
  moreover have "fst ` set ?xs = fst ` set (nodes g)" using keys by (metis set_map)
  ultimately have "\<forall>node \<in> set ?xs.
      distinct (map fst (snd node)) \<and> fst ` set (snd node) \<subseteq> fst ` set ?xs"
    by (metis prod.collapse)
  moreover have "distinct (map fst ?xs)" using assms(1) keys by (simp add: wf_graph_def)
  ultimately show ?thesis by (simp add: wf_graph_def)
qed

lemma keys_add_node: "fst ` set (nodes (add_node g v)) = insert v (fst ` set (nodes g))"
  by (auto simp: add_node_def)

lemma keys_map_entry: "fst ` set (AList.map_entry k f xs) = fst ` set xs"
  by (induction xs) auto

lemma directed_add_node [simp]: "directed (add_node g v) = directed g"
  by (simp add: add_node_def)

lemma wf_graph_add_edge:
  assumes "wf_graph g"
  shows "wf_graph (add_edge g u v w)"
proof -
  let ?g2 = "add_node (add_node g u) v"
  let ?g3 = "?g2\<lparr>nodes := AList.map_entry u (\<lambda>ns. add_neighbor ns v w) (nodes ?g2)\<rparr>"
  let ?g4 = "?g3\<lparr>nodes := AList.map_entry v (\<lambda>ns. add_neighbor ns u w) (nodes ?g3)\<rparr>"
  have wf2: "wf_graph ?g2" using assms by (intro wf_graph_add_node)
  have wf3: "wf_graph ?g3" using wf2 by (rule wf_graph_map_entry) (simp add: keys_add_node)
  have "u \<in> fst ` set (nodes ?g3)" by (simp add: keys_map_entry keys_add_node)
  with wf3 have wf4: "wf_graph ?g4" by (rule wf_graph_map_entry)
  show ?thesis
  proof (cases "directed g")
    case True
    then have "add_edge g u v w = ?g3" by (simp add: add_edge_def Let_def)
    with wf3 show ?thesis by simp
  next
    case False
    then have "add_edge g u v w = ?g4" by (simp add: add_edge_def Let_def)
    with wf4 show ?thesis by simp
  qed
qed

section \<open>Empty containers\<close>

lemma get_node_None: "get_node g v = None \<longleftrightarrow> v \<notin> set (get_all_nodes g)"
  by (simp add: get_node_def get_all_nodes_def map_of_eq_None_iff)

text \<open>
  Claim C9. \<^verbatim>\<open>extract_min\<close> and \<^verbatim>\<open>peek_min\<close> of the priority queue, \<^verbatim>\<open>dequeue\<close>
  and \<^verbatim>\<open>peek\<close> of the queue, \<^verbatim>\<open>pop\<close> and \<^verbatim>\<open>peek\<close> of the stack raise exactly when
  the container is empty, and what they raise then is the empty-container error; on a
  container that is not empty each of them returns a value.
\<close>

theorem empty_container_error:
  "(extract_min h = Inl e) = (pq_is_empty h \<and> e = EmptyContainer) \<and>
   (peek_min h' = Inl e) = (pq_is_empty h' \<and> e = EmptyContainer) \<and>
   (dequeue q = Inl e) = (queue_is_empty q \<and> e = EmptyContainer) \<and>
   (queue_peek q = Inl e) = (queue_is_empty q \<and> e = EmptyContainer) \<and>
   (pop s = Inl e) = (stack_is_empty s \<and> e = EmptyContainer) \<and>
   (stack_peek s = Inl e) = (stack_is_empty s \<and> e = EmptyContainer) \<and>
   pq_is_empty h = (pq_size h = 0) \<and>
   queue_is_empty q = (queue_size q = 0) \<and>
   stack_is_empty s = (stack_size s = 0)"
  by (auto simp: extract_min_def peek_min_def dequeue_def queue_peek_def pop_def stack_peek_def
      pq_is_empty_def pq_size_def queue_size_def stack_size_def queue_is_empty_def
      stack_is_empty_def Let_def)

section \<open>Absent endpoints\<close>

text \<open>
  Claim C5. When the start value or the goal value is not a node of the graph, each of
  the four searches returns at once, without raising: not found, empty path, empty
  visited list, zero nodes explored; Dijkstra and A* report an infinite cost, and the
  dictionaries of BFS and DFS have no cost.
\<close>

theorem absent_endpoint:
  assumes "start_value \<notin> set (get_all_nodes g) \<or> goal_value \<notin> set (get_all_nodes g)"
  shows "breadth_first_search g start_value goal_value =
           Some (Inr \<lparr>found = False, path = [], cost = None, visited = [], nodes_explored = 0\<rparr>) \<and>
         depth_first_search g start_value goal_value =
           Some (Inr \<lparr>found = False, path = [], cost = None, visited = [], nodes_explored = 0\<rparr>) \<and>
         dijkstra g start_value goal_value =
           Some (Inr \<lparr>found = False, path = [], cost = Some py_inf, visited = [],
                      nodes_explored = 0\<rparr>) \<and>
         astar g start_value goal_value heuristic =
           Some (Inr \<lparr>found = False, path = [], cost = Some py_inf, visited = [],
                      nodes_explored = 0\<rparr>)"
proof -
  from assms have "get_node g start_value = None \<or> get_node g goal_value = None"
    by (simp add: get_node_None)
  then show ?thesis
    by (auto simp: breadth_first_search_def depth_first_search_def dijkstra_def astar_def
        not_found_early_def split: option.splits)
qed

theorem absent_endpoint_witness:
  "(3::nat) \<notin> set (get_all_nodes (add_edge (new_graph False) 1 2 (PInt 1))) \<and>
   breadth_first_search (add_edge (new_graph False) 1 2 (PInt 1)) (1::nat) 3 =
     Some (Inr \<lparr>found = False, path = [], cost = None, visited = [], nodes_explored = 0\<rparr>) \<and>
   depth_first_search (add_edge (new_graph False) 1 2 (PInt 1)) (1::nat) 3 =
     Some (Inr \<lparr>found = False, path = [], cost = None, visited = [], nodes_explored = 0\<rparr>) \<and>
   dijkstra (add_edge (new_graph False) 1 2 (PInt 1)) (1::nat) 3 =
     Some (Inr \<lparr>found = False, path = [], cost = Some py_inf, visited = [], nodes_explored = 0\<rparr>) \<and>
   astar (add_edge (new_graph False) 1 2 (PInt 1)) (1::nat) 3 zero_heuristic =
     Some (Inr \<lparr>found = False, path = [], cost = Some py_inf, visited = [], nodes_explored = 0\<rparr>)"
  using absent_endpoint [of "1::nat" "add_edge (new_graph False) 1 2 (PInt 1)" 3 zero_heuristic]
  by (simp add: get_all_nodes_def add_edge_def add_node_def new_graph_def Let_def)

section \<open>Edges\<close>

lemma map_of_add_node:
  "map_of (nodes (add_node g v)) x =
     (if x = v \<and> map_of (nodes g) v = None then Some [] else map_of (nodes g) x)"
  by (auto simp: add_node_def map_of_eq_None_iff [symmetric] map_add_def split: option.splits)

lemma get_weight_add_neighbor:
  "get_weight (add_neighbor ns n w) x = (if x = n then w else get_weight ns x)"
  by (simp add: get_weight_def add_neighbor_def update_conv')

lemma get_node_add_edge_directed:
  "directed g \<Longrightarrow> get_node (add_edge g u v w) x =
     (if x = u then Some (add_neighbor (neighbors_of g u) v w)
      else if x = v then Some (neighbors_of g v) else get_node g x)"
  by (auto simp: add_edge_def Let_def get_node_def map_of_map_entry map_of_add_node
      neighbors_of_def split: option.splits)

lemma get_node_add_edge_undirected:
  "\<not> directed g \<Longrightarrow> get_node (add_edge g u v w) x =
     (if x = v then Some (add_neighbor (if u = v then add_neighbor (neighbors_of g v) v w
                                        else neighbors_of g v) u w)
      else if x = u then Some (add_neighbor (neighbors_of g u) v w)
      else get_node g x)"
  by (auto simp: add_edge_def Let_def get_node_def map_of_map_entry map_of_add_node
      neighbors_of_def split: option.splits)

lemma get_edge_weight_add_edge:
  "get_edge_weight (add_edge g u v w) u v = w"
  by (cases "directed g")
     (auto simp: get_edge_weight_def get_node_add_edge_directed get_node_add_edge_undirected
       get_weight_add_neighbor)

lemma get_edge_weight_add_edge_sym:
  "\<not> directed g \<Longrightarrow> get_edge_weight (add_edge g u v w) v u = w"
  by (auto simp: get_edge_weight_def get_node_add_edge_undirected get_weight_add_neighbor)

lemma get_weight_absent: "n \<notin> fst ` set ns \<Longrightarrow> get_weight ns n = py_inf"
  by (simp add: get_weight_def map_of_eq_None_iff [THEN iffD2])

lemma get_edge_weight_add_edge_rev:
  assumes "wf_graph g" "directed g" "u \<noteq> v"
  shows "get_edge_weight (add_edge g u v w) v u = get_edge_weight g v u"
proof (cases "get_node g v")
  case None
  then show ?thesis using assms(2,3)
    by (simp add: get_edge_weight_def get_node_add_edge_directed neighbors_of_def get_weight_def)
next
  case (Some ns)
  then have in_g: "(v, ns) \<in> set (nodes g)" by (simp add: get_node_def map_of_SomeD)
  show ?thesis
  proof (cases "get_node g u")
    case None
    then have "u \<notin> fst ` set (nodes g)" by (simp add: get_node_def map_of_eq_None_iff)
    with wf_graphD [OF assms(1) in_g] have "u \<notin> fst ` set ns" by auto
    then have "get_weight ns u = py_inf" by (rule get_weight_absent)
    with Some None assms(2,3) show ?thesis
      by (simp add: get_edge_weight_def get_node_add_edge_directed neighbors_of_def)
  next
    case Some': (Some ns')
    with Some assms(2,3) show ?thesis
      by (simp add: get_edge_weight_def get_node_add_edge_directed neighbors_of_def)
  qed
qed

lemma neighbors_of_add_edge_mem:
  "v \<in> fst ` set (neighbors_of (add_edge g u v w) u)"
proof (cases "directed g")
  case True
  then show ?thesis
    by (simp add: neighbors_of_def get_node_add_edge_directed add_neighbor_def fst_set_update)
next
  case False
  then show ?thesis
    by (simp add: neighbors_of_def get_node_add_edge_undirected add_neighbor_def fst_set_update)
qed

lemma wf_graph_neighbors_of: "wf_graph g \<Longrightarrow> distinct (map fst (neighbors_of g u))"
proof (cases "get_node g u")
  case None
  then show ?thesis by (simp add: neighbors_of_def)
next
  case (Some ns)
  assume "wf_graph g"
  moreover from Some have "(u, ns) \<in> set (nodes g)" by (simp add: get_node_def map_of_SomeD)
  ultimately show ?thesis using Some by (simp add: neighbors_of_def wf_graphD)
qed

lemma one_entry:
  assumes "distinct (map fst ns)" "v \<in> fst ` set ns"
  shows "length (filter (\<lambda>e. fst e = v) ns) = 1"
  using assms by (induction ns) (auto simp: image_iff filter_empty_conv)

text \<open>
  Claim C4 holds for two distinct endpoints. On a directed graph a self-loop
  \<^verbatim>\<open>add_edge(u, u, w)\<close> is its own reverse edge, so the weight read back in the reverse
  direction is \<open>w\<close> and not infinity, although no other edge was added.
\<close>

theorem directed_self_loop_reverse_weight:
  "directed (new_graph True :: nat graph) \<and>
   get_edge_weight (new_graph True) (1::nat) 1 = py_inf \<and>
   get_edge_weight (add_edge (new_graph True) (1::nat) 1 (PFloat (Finite 5))) 1 1 = PFloat (Finite 5)"
  by (simp add: new_graph_def get_edge_weight_def get_node_def add_edge_def add_node_def
      add_neighbor_def get_weight_def Let_def)

text \<open>
  Claim C4, amended. On a graph built by the interface, after \<^verbatim>\<open>add_edge(u, v, w)\<close>
  the weight from \<open>u\<close> to \<open>v\<close> is \<open>w\<close>. The weight from \<open>v\<close> to \<open>u\<close> is \<open>w\<close> too
  when the graph is undirected or \<open>u = v\<close>; on a directed graph with \<open>u \<noteq> v\<close> it is
  what it was before the call, hence infinite on a graph where that edge was never
  added. Adding the edge again replaces the weight, and the neighbour table of \<open>u\<close>
  has exactly one entry for \<open>v\<close>.
\<close>

theorem add_edge_round_trip:
  assumes "wf_graph g"
  shows "get_edge_weight (add_edge g u v w) u v = w \<and>
         get_edge_weight (add_edge g u v w) v u =
           (if directed g \<and> u \<noteq> v then get_edge_weight g v u else w) \<and>
         get_edge_weight (add_edge (new_graph True) u v w) v u =
           (if u \<noteq> v then py_inf else w) \<and>
         get_edge_weight (add_edge (add_edge g u v w) u v w') u v = w' \<and>
         length (filter (\<lambda>e. fst e = v) (neighbors_of (add_edge (add_edge g u v w) u v w') u)) = 1"
proof -
  have 1: "get_edge_weight (add_edge g u v w) v u =
           (if directed g \<and> u \<noteq> v then get_edge_weight g v u else w)"
  proof (cases "directed g \<and> u \<noteq> v")
    case True
    then show ?thesis using get_edge_weight_add_edge_rev [OF assms] by simp
  next
    case False
    then consider "\<not> directed g" | "u = v" by auto
    then show ?thesis
    proof cases
      case 1
      then show ?thesis by (simp add: get_edge_weight_add_edge_sym)
    next
      case 2
      then show ?thesis by (simp add: get_edge_weight_add_edge)
    qed
  qed
  have 2: "get_edge_weight (add_edge (new_graph True) u v w) v u =
           (if u \<noteq> v then py_inf else w)"
  proof (cases "u = v")
    case True
    then show ?thesis by (simp add: get_edge_weight_add_edge)
  next
    case False
    have "get_edge_weight (add_edge (new_graph True) u v w) v u = get_edge_weight (new_graph True) v u"
      using False by (intro get_edge_weight_add_edge_rev wf_graph_new) (simp_all add: new_graph_def)
    with False show ?thesis by (simp add: get_edge_weight_def get_node_def new_graph_def)
  qed
  have "wf_graph (add_edge (add_edge g u v w) u v w')"
    using assms by (intro wf_graph_add_edge)
  then have 3: "length (filter (\<lambda>e. fst e = v)
                  (neighbors_of (add_edge (add_edge g u v w) u v w') u)) = 1"
    by (intro one_entry wf_graph_neighbors_of neighbors_of_add_edge_mem)
  show ?thesis using 1 2 3 by (simp add: get_edge_weight_add_edge)
qed

theorem add_edge_round_trip_witness:
  "wf_graph (add_edge (new_graph True) (1::nat) 2 (PInt 3)) \<and>
   get_edge_weight (add_edge (add_edge (new_graph True) (1::nat) 2 (PInt 3)) 2 3 (PInt 4)) 2 3 = PInt 4 \<and>
   get_edge_weight (add_edge (add_edge (new_graph True) (1::nat) 2 (PInt 3)) 2 3 (PInt 4)) 3 2 = py_inf \<and>
   get_edge_weight (add_edge (add_edge (new_graph True) (1::nat) 2 (PInt 3)) 2 1 (PInt 4)) 1 2 = PInt 3 \<and>
   get_edge_weight (add_edge (add_edge (add_edge (new_graph True) (1::nat) 2 (PInt 3)) 2 3 (PInt 4)) 2 3 (PInt 7)) 2 3
     = PInt 7 \<and>
   wf_graph (add_edge (new_graph False) (1::nat) 2 (PInt 3)) \<and>
   get_edge_weight (add_edge (add_edge (new_graph False) (1::nat) 2 (PInt 3)) 2 3 (PInt 4)) 3 2 = PInt 4"
proof -
  have d: "wf_graph (add_edge (new_graph True) (1::nat) 2 (PInt 3))"
    and u: "wf_graph (add_edge (new_graph False) (1::nat) 2 (PInt 3))"
    by (simp_all add: wf_graph_def new_graph_def add_edge_def add_node_def add_neighbor_def Let_def)
  have r: "get_edge_weight (add_edge (new_graph True) (1::nat) 2 (PInt 3)) 3 2 = py_inf"
    "get_edge_weight (add_edge (new_graph True) (1::nat) 2 (PInt 3)) 1 2 = PInt 3"
    by (simp_all add: new_graph_def get_edge_weight_def get_node_def add_edge_def add_node_def
        add_neighbor_def get_weight_def Let_def)
  show ?thesis
    using add_edge_round_trip [OF d, of 2 3 "PInt 4" "PInt 7"] add_edge_round_trip [OF d, of 2 1 "PInt 4" "PInt 7"]
      add_edge_round_trip [OF u, of 2 3 "PInt 4" "PInt 7"] d u r
    by (simp add: new_graph_def add_edge_def add_node_def)
qed

section \<open>Path costs\<close>

text \<open>
  The notions the specification speaks of. Costs are exact here: a finite real number
  or infinity, with the exact sum. The value of a Python number is the number it
  denotes; a NaN and the negative infinity, which no graph with non-negative weights
  contains, count as infinite. A path is the list of its nodes; its weight is the sum
  of the values \<^verbatim>\<open>get_edge_weight\<close> reports along it, infinite as soon as one of its
  steps is not an edge. The true cost from \<open>u\<close> to \<open>v\<close> is the least weight of a path
  from \<open>u\<close> to \<open>v\<close>, and a heuristic is admissible for a goal when it never exceeds the
  weight of a path to the goal.
\<close>

datatype xreal = Fin real | PInf

instantiation xreal :: linorder
begin

definition less_eq_xreal :: "xreal \<Rightarrow> xreal \<Rightarrow> bool" where
  "less_eq_xreal a b =
     (case b of PInf \<Rightarrow> True | Fin y \<Rightarrow> (case a of PInf \<Rightarrow> False | Fin x \<Rightarrow> x \<le> y))"

definition less_xreal :: "xreal \<Rightarrow> xreal \<Rightarrow> bool" where
  "less_xreal a b =
     (case a of PInf \<Rightarrow> False | Fin x \<Rightarrow> (case b of PInf \<Rightarrow> True | Fin y \<Rightarrow> x < y))"

instance
  by standard (auto simp: less_eq_xreal_def less_xreal_def split: xreal.splits)

end

fun xadd :: "xreal \<Rightarrow> xreal \<Rightarrow> xreal" where
  "xadd (Fin a) (Fin b) = Fin (a + b)"
| "xadd _ _ = PInf"

fun num_val :: "pynum \<Rightarrow> xreal" where
  "num_val (PInt i) = Fin (of_int i)"
| "num_val (PFloat (Finite r)) = Fin r"
| "num_val (PFloat _) = PInf"

fun path_weight :: "'v graph \<Rightarrow> 'v list \<Rightarrow> xreal" where
  "path_weight g (u # v # rest) = xadd (num_val (get_edge_weight g u v)) (path_weight g (v # rest))"
| "path_weight g [v] = Fin 0"
| "path_weight g [] = Fin 0"

definition connects :: "'v list \<Rightarrow> 'v \<Rightarrow> 'v \<Rightarrow> bool" where
  "connects p u v = (p \<noteq> [] \<and> hd p = u \<and> last p = v)"

definition nonneg :: "pynum \<Rightarrow> bool" where
  "nonneg w = (w = PInt 0 \<or> PInt 0 < w)"

definition nonneg_weights :: "'v graph \<Rightarrow> bool" where
  "nonneg_weights g = (\<forall>node \<in> set (nodes g). \<forall>e \<in> set (snd node). nonneg (snd e))"

definition admissible :: "'v graph \<Rightarrow> ('v \<Rightarrow> 'v \<Rightarrow> pynum) \<Rightarrow> 'v \<Rightarrow> bool" where
  "admissible g h goal =
     (\<forall>v p. connects p v goal \<longrightarrow> nonneg (h v goal) \<and> num_val (h v goal) \<le> path_weight g p)"

definition min_cost :: "'v graph \<Rightarrow> 'v \<Rightarrow> 'v \<Rightarrow> xreal \<Rightarrow> bool" where
  "min_cost g u v c =
     ((\<exists>p. connects p u v \<and> path_weight g p = c) \<and>
      (\<forall>p. connects p u v \<longrightarrow> c \<le> path_weight g p))"

lemma xadd_zero [simp]: "xadd a (Fin 0) = a"
  by (cases a) simp_all

lemma Fin_le [simp]: "Fin a \<le> Fin b \<longleftrightarrow> a \<le> b"
  by (simp add: less_eq_xreal_def)

lemma le_PInf [simp]: "a \<le> PInf"
  by (simp add: less_eq_xreal_def)

lemma PInf_le [simp]: "PInf \<le> a \<longleftrightarrow> a = PInf"
  by (cases a) (simp_all add: less_eq_xreal_def)

lemma Fin_less [simp]: "Fin a < Fin b \<longleftrightarrow> a < b"
  by (simp add: less_xreal_def)

lemma less_PInf [simp]: "a < PInf \<longleftrightarrow> a \<noteq> PInf"
  by (cases a) (simp_all add: less_xreal_def)

lemma PInf_less [simp]: "\<not> PInf < a"
  by (simp add: less_xreal_def)

text \<open>
  A lower bound on every path: a potential that no edge lets drop by more than its
  weight bounds the weight of a path by the drop between its ends.
\<close>

lemma potential_bound:
  assumes pot: "\<And>u v. Fin (\<phi> u) \<le> xadd (num_val (get_edge_weight g u v)) (Fin (\<phi> v))"
    and ne: "p \<noteq> []"
  shows "Fin (\<phi> (hd p)) \<le> xadd (path_weight g p) (Fin (\<phi> (last p)))"
  using ne
proof (induction p rule: induct_list012)
  case (3 u v rest)
  then have ih: "Fin (\<phi> v) \<le> xadd (path_weight g (v # rest)) (Fin (\<phi> (last (v # rest))))"
    by simp
  show ?case
  proof (cases "num_val (get_edge_weight g u v)")
    case PInf
    then show ?thesis by simp
  next
    case (Fin w)
    show ?thesis
    proof (cases "path_weight g (v # rest)")
      case PInf
      then show ?thesis by (simp add: Fin)
    next
      case pw: (Fin c)
      from pot [of u v] Fin have "\<phi> u \<le> w + \<phi> v" by simp
      moreover from ih pw have "\<phi> v \<le> c + \<phi> (last (v # rest))" by simp
      ultimately show ?thesis using Fin pw by simp
    qed
  qed
qed simp_all

section \<open>A* with an admissible heuristic\<close>

text \<open>
  The graph of the example: \<open>0\<close> to \<open>1\<close> to \<open>2\<close> to \<open>3\<close> costs \<open>1 + 1 + 5\<close>, and the
  direct edge from \<open>0\<close> to \<open>2\<close> costs \<open>3\<close>. The heuristic estimates \<open>6\<close> from node
  \<open>1\<close> to the goal \<open>3\<close>, which is the true cost, and \<open>0\<close> everywhere else. All numbers
  are integers, so that every sum is exact.
\<close>

definition detour_graph :: "nat graph" where
  "detour_graph =
     add_edge (add_edge (add_edge (add_edge (new_graph False)
       0 1 (PInt 1)) 1 2 (PInt 1)) 0 2 (PInt 3)) 2 3 (PInt 5)"

definition detour_heuristic :: "nat \<Rightarrow> nat \<Rightarrow> pynum" where
  "detour_heuristic node goal = (if node = 1 \<and> goal = 3 then PInt 6 else PInt 0)"

definition detour_potential :: "nat \<Rightarrow> real" where
  "detour_potential v = (if v = 0 then 7 else if v = 1 then 6 else if v = 2 then 5 else 0)"

lemma nodes_detour_graph:
  "nodes detour_graph =
     [(0, [(1, PInt 1), (2, PInt 3)]), (1, [(0, PInt 1), (2, PInt 1)]),
      (2, [(1, PInt 1), (0, PInt 3), (3, PInt 5)]), (3, [(2, PInt 5)])]"
  by (simp add: detour_graph_def add_edge_def add_node_def new_graph_def add_neighbor_def Let_def)

lemma detour_potential_edge:
  "Fin (detour_potential u)
   \<le> xadd (num_val (get_edge_weight detour_graph u v)) (Fin (detour_potential v))"
  by (simp add: get_edge_weight_def get_node_def nodes_detour_graph get_weight_def
      detour_potential_def)

lemma detour_path_bound:
  assumes "connects p v 3"
  shows "Fin (detour_potential v) \<le> path_weight detour_graph p"
proof -
  from assms have "p \<noteq> []" "hd p = v" "last p = 3" by (simp_all add: connects_def)
  with potential_bound [of detour_potential detour_graph p, OF detour_potential_edge]
  show ?thesis by (simp add: detour_potential_def)
qed

lemma detour_admissible: "admissible detour_graph detour_heuristic 3"
  unfolding admissible_def
proof (intro allI impI conjI)
  fix v p
  assume "connects p v (3::nat)"
  then have "Fin (detour_potential v) \<le> path_weight detour_graph p" by (rule detour_path_bound)
  moreover have "num_val (detour_heuristic v 3) \<le> Fin (detour_potential v)"
    by (simp add: detour_heuristic_def detour_potential_def)
  ultimately show "num_val (detour_heuristic v 3) \<le> path_weight detour_graph p"
    by (rule order_trans [rotated])
  show "nonneg (detour_heuristic v 3)"
    by (simp add: nonneg_def detour_heuristic_def less_pynum_def)
qed

lemma detour_min_cost: "min_cost detour_graph 0 3 (Fin 7)"
proof -
  have "connects [0, 1, 2, 3] 0 (3::nat) \<and> path_weight detour_graph [0, 1, 2, 3] = Fin 7"
    by (simp add: connects_def get_edge_weight_def get_node_def nodes_detour_graph get_weight_def)
  moreover have "Fin 7 \<le> path_weight detour_graph p" if "connects p 0 (3::nat)" for p
    using detour_path_bound [OF that] by (simp add: detour_potential_def)
  ultimately show ?thesis unfolding min_cost_def by blast
qed

lemma detour_nonneg: "nonneg_weights detour_graph"
  by (simp add: nonneg_weights_def nodes_detour_graph nonneg_def less_pynum_def)

text \<open>
  Claim C1 on this graph. The weights are non-negative, the heuristic is admissible
  and the true cost from \<open>0\<close> to \<open>3\<close> is \<open>7\<close>. Dijkstra returns it. A* finalizes node
  \<open>2\<close> at cost \<open>3\<close> before it finalizes node \<open>1\<close>, never reconsiders it, and returns the
  path over the direct edge at cost \<open>8\<close>.
\<close>

theorem astar_admissible_not_optimal:
  "nonneg_weights detour_graph \<and>
   admissible detour_graph detour_heuristic 3 \<and>
   min_cost detour_graph 0 3 (Fin 7) \<and>
   dijkstra detour_graph 0 3 =
     Some (Inr \<lparr>found = True, path = [0, 1, 2, 3], cost = Some (PInt 7),
                visited = [0, 1, 2, 3], nodes_explored = 4\<rparr>) \<and>
   astar detour_graph 0 3 detour_heuristic =
     Some (Inr \<lparr>found = True, path = [0, 2, 3], cost = Some (PInt 8),
                visited = [0, 2, 1, 3], nodes_explored = 4\<rparr>)"
proof -
  have "dijkstra detour_graph 0 3 =
     Some (Inr \<lparr>found = True, path = [0, 1, 2, 3], cost = Some (PInt 7),
                visited = [0, 1, 2, 3], nodes_explored = 4\<rparr>)"
    by code_simp
  moreover have "astar detour_graph 0 3 detour_heuristic =
     Some (Inr \<lparr>found = True, path = [0, 2, 3], cost = Some (PInt 8),
                visited = [0, 2, 1, 3], nodes_explored = 4\<rparr>)"
    by code_simp
  ultimately show ?thesis using detour_nonneg detour_admissible detour_min_cost by simp
qed

text \<open>
  The admissibility bound is tight on this graph: from node \<open>1\<close> the path over node
  \<open>2\<close> reaches the goal at weight \<open>6\<close>, the value of the heuristic.
\<close>

theorem astar_admissible_not_optimal_witness:
  "connects [1, 2, 3] 1 (3::nat) \<and>
   path_weight detour_graph [1, 2, 3] = Fin 6 \<and>
   num_val (detour_heuristic 1 3) \<le> path_weight detour_graph [1, 2, 3]"
proof -
  have c: "connects [1, 2, 3] 1 (3::nat)" by (simp add: connects_def)
  from astar_admissible_not_optimal have "admissible detour_graph detour_heuristic 3" by simp
  with c have "num_val (detour_heuristic 1 3) \<le> path_weight detour_graph [1, 2, 3]"
    unfolding admissible_def by blast
  moreover have "path_weight detour_graph [1, 2, 3] = Fin 6"
    by (simp add: get_edge_weight_def get_node_def nodes_detour_graph get_weight_def)
  ultimately show ?thesis using c by simp
qed

section \<open>Rounding\<close>

lemma bitlen_eqI: "0 < c \<Longrightarrow> 2 ^ nat (c - 1) \<le> x \<Longrightarrow> x < 2 ^ nat c \<Longrightarrow> bitlen x = c"
  by (metis bitlen_le_iff_power linorder_le_cases verit_comp_simplify1(3)
    verit_la_disequality zle_diff1_eq)

lemma round53_minus: "round53 (- k) = - round53 k"
  by (simp add: round53_def Let_def)

lemma div_lo: "(0::int) < q \<Longrightarrow> a * q \<le> k \<Longrightarrow> a \<le> k div q"
  using zdiv_mono1 [of "a * q" k q] by simp

lemma div_hi:
  assumes "(0::int) < q" "k < a * q"
  shows "k div q < a"
proof (rule ccontr)
  assume "\<not> k div q < a"
  then have "a * q \<le> (k div q) * q" using assms(1) by (intro mult_right_mono) simp_all
  moreover have "(k div q) * q \<le> k"
    using div_mult_mod_eq [of k q] pos_mod_sign [OF assms(1), of k] by linarith
  ultimately show False using assms(2) by simp
qed

lemma round53_pos:
  assumes "0 < k"
  shows "round53 k =
     (if bitlen k \<le> 53 then k
      else (if 2 * (k mod 2 ^ nat (bitlen k - 53)) < 2 ^ nat (bitlen k - 53)
            then k div 2 ^ nat (bitlen k - 53)
            else if 2 ^ nat (bitlen k - 53) < 2 * (k mod 2 ^ nat (bitlen k - 53))
            then k div 2 ^ nat (bitlen k - 53) + 1
            else if even (k div 2 ^ nat (bitlen k - 53))
            then k div 2 ^ nat (bitlen k - 53)
            else k div 2 ^ nat (bitlen k - 53) + 1) * 2 ^ nat (bitlen k - 53))"
proof -
  have "abs k = k" "sgn k = 1" using assms by simp_all
  then show ?thesis unfolding round53_def Let_def by simp
qed

text \<open>An integer of at most 53 bits, shifted left, is its own rounding.\<close>

lemma round53_shift_pos:
  assumes "0 < m" "bitlen m \<le> 53"
  shows "round53 (m * 2 ^ d) = m * 2 ^ d"
proof -
  define K where "K = m * 2 ^ d"
  have b: "bitlen K = bitlen m + int d" using assms(1) by (simp add: K_def)
  have pos: "0 < K" using assms(1) by (simp add: K_def)
  have "round53 K = K"
  proof (cases "bitlen K \<le> 53")
    case True
    then show ?thesis by (simp add: round53_pos [OF pos])
  next
    case False
    define e where "e = nat (bitlen K - 53)"
    have "e \<le> d" using assms(2) b by (simp add: e_def)
    then obtain c where d: "d = e + c" using le_Suc_ex by blast
    have eq: "K = (m * 2 ^ c) * 2 ^ e" by (simp add: K_def d power_add)
    have r0: "K mod 2 ^ e = 0" unfolding eq by simp
    then have dv: "K div 2 ^ e * 2 ^ e = K" by (simp add: mod_0_imp_dvd)
    have "round53 K = K div 2 ^ e * 2 ^ e"
      using False r0 by (simp add: round53_pos [OF pos] e_def [symmetric])
    with dv show ?thesis by simp
  qed
  then show ?thesis by (simp add: K_def)
qed

lemma round53_fits:
  assumes "2 ^ 52 \<le> m" "m \<le> 2 ^ 53"
  shows "round53 (m * 2 ^ d) = m * 2 ^ d"
proof (cases "m = 2 ^ 53")
  case True
  have "bitlen (2 ^ 52 :: int) = 53" by (intro bitlen_eqI) simp_all
  then have "round53 (2 ^ 52 * 2 ^ Suc d) = (2 ^ 52 * 2 ^ Suc d :: int)"
    by (intro round53_shift_pos) simp_all
  then show ?thesis using True by simp
next
  case False
  with assms have lt: "m < 2 ^ 53" by simp
  have "0 < m" using assms(1) by (rule less_le_trans [rotated]) simp
  moreover have "bitlen m = 53" using assms(1) lt by (intro bitlen_eqI) simp_all
  ultimately show ?thesis by (intro round53_shift_pos) simp_all
qed

lemma round53_pos_shape:
  assumes "0 < k" "53 < bitlen k"
  shows "\<exists>m d. round53 k = m * 2 ^ d \<and> 2 ^ 52 \<le> m \<and> m \<le> 2 ^ 53"
proof -
  define d where "d = nat (bitlen k - 53)"
  define q :: int where "q = 2 ^ d"
  define m where "m = k div q"
  define r where "r = k mod q"
  define m' where "m' = (if 2 * r < q then m else if q < 2 * r then m + 1
                     else if even m then m else m + 1)"
  have rk: "round53 k = m' * q"
    using assms(2) by (simp add: round53_pos [OF assms(1)] d_def q_def m_def r_def m'_def)
  have bl: "bitlen k = 53 + int d" using assms(2) by (simp add: d_def)
  from bitlen_bounds [OF assms(1)]
  have lo: "2 ^ nat (bitlen k - 1) \<le> k" and hi: "k < 2 ^ nat (bitlen k)"
    by simp_all
  have e1: "nat (bitlen k - 1) = 52 + d" and e2: "nat (bitlen k) = 53 + d" using bl by simp_all
  have q0: "0 < q" by (simp add: q_def)
  have "2 ^ 52 * q \<le> k" using lo by (simp add: e1 q_def power_add)
  then have mlo: "2 ^ 52 \<le> m" unfolding m_def using q0 by (intro div_lo)
  have "k < 2 ^ 53 * q" using hi by (simp add: e2 q_def power_add)
  then have mhi: "m < 2 ^ 53" unfolding m_def using q0 by (intro div_hi)
  have "m \<le> m'" "m' \<le> m + 1" by (simp_all add: m'_def)
  with mlo mhi have "2 ^ 52 \<le> m'" "m' \<le> 2 ^ 53" by simp_all
  with rk show ?thesis unfolding q_def by blast
qed







lemma round53_zero [simp]: "round53 0 = 0"
  by (simp add: round53_def)

lemma round53_scale_exact_pos:
  assumes "0 < k" "round53 k = k"
  shows "round53 (k * 2 ^ d) = k * 2 ^ d"
proof (cases "bitlen k \<le> 53")
  case True
  with assms(1) show ?thesis by (rule round53_shift_pos)
next
  case False
  then have "53 < bitlen k" by simp
  from round53_pos_shape [OF assms(1) this] assms(2) obtain m e where
    k: "k = m * 2 ^ e" and m: "2 ^ 52 \<le> m" "m \<le> 2 ^ 53" by auto
  have "k * 2 ^ d = m * 2 ^ (e + d)" by (simp add: k power_add)
  with round53_fits [OF m, of "e + d"] show ?thesis by simp
qed

lemma round53_scale_exact:
  assumes "round53 k = k"
  shows "round53 (k * 2 ^ d) = k * 2 ^ d"
proof -
  consider "0 < k" | "k = 0" | "k < 0" by linarith
  then show ?thesis
  proof cases
    case 1
    then show ?thesis using assms by (rule round53_scale_exact_pos)
  next
    case 2
    then show ?thesis by simp
  next
    case 3
    then have "0 < - k" by simp
    moreover have "round53 (- k) = - k" using assms by (simp add: round53_minus)
    ultimately have "round53 (- k * 2 ^ d) = - k * 2 ^ d" by (rule round53_scale_exact_pos)
    then have "round53 (- (k * 2 ^ d)) = - (k * 2 ^ d)" by simp
    then show ?thesis by (simp only: round53_minus neg_equal_iff_equal)
  qed
qed

text \<open>An integer that needs no rounding and is in range denotes a double.\<close>

lemma to_double_of_int:
  assumes "round53 k = k" "abs k < 2 ^ 1024"
  shows "to_double (of_int k) = Finite (of_int k)"
proof -
  have fl: "\<lfloor>(of_int k :: real) * 2 ^ 1074\<rfloor> = k * 2 ^ 1074"
  proof -
    have "(of_int k :: real) * 2 ^ 1074 = of_int (k * 2 ^ 1074)" by simp
    then show ?thesis by (simp only: floor_of_int)
  qed
  have r: "round53 (k * 2 ^ 1074) = k * 2 ^ 1074" using assms(1) by (rule round53_scale_exact)
  have "abs (k * 2 ^ 1074) < 2 ^ 1024 * 2 ^ 1074"
    using assms(2) by (simp add: abs_mult)
  then have b: "abs (k * 2 ^ 1074) < 2 ^ 2098" by (simp add: power_add [symmetric])
  then have "\<not> 2 ^ 2098 \<le> k * 2 ^ 1074" "\<not> k * 2 ^ 1074 \<le> - (2 ^ 2098)" by linarith+
  then show ?thesis unfolding to_double_def Let_def fl r by simp
qed

text \<open>
  For evaluation: the rounding of an integer-valued real is decided on the integer.
\<close>

lemma to_double_code [code]:
  "to_double x =
     (let k = \<lfloor>x\<rfloor> in
      if x = of_int k \<and> round53 k = k \<and> abs k < 2 ^ 1024 then Finite x
      else let k = round53 \<lfloor>x * 2 ^ 1074\<rfloor> in
           if 2 ^ 2098 \<le> k then PosInf
           else if k \<le> - (2 ^ 2098) then NegInf
           else Finite (of_int k / 2 ^ 1074))"
proof (cases "x = of_int \<lfloor>x\<rfloor> \<and> round53 \<lfloor>x\<rfloor> = \<lfloor>x\<rfloor> \<and> abs \<lfloor>x\<rfloor> < 2 ^ 1024")
  case True
  then have "to_double (of_int \<lfloor>x\<rfloor>) = Finite (of_int \<lfloor>x\<rfloor>)" by (intro to_double_of_int) simp_all
  with True show ?thesis by (simp add: Let_def)
next
  case False
  then show ?thesis by (auto simp: to_double_def Let_def)
qed

section \<open>A* with the zero heuristic\<close>

text \<open>
  With \<^verbatim>\<open>zero_heuristic\<close> the priority of A* is \<^verbatim>\<open>g + 0.0\<close> where that of Dijkstra is
  \<^verbatim>\<open>g\<close>. The two heaps then hold the same nodes at the same places as long as the two
  priorities compare alike with every number.
\<close>

definition same_rank :: "pynum \<Rightarrow> pynum \<Rightarrow> bool" where
  "same_rank a b = (\<forall>c. (a < c) = (b < c) \<and> (c < a) = (c < b))"

lemma same_rank_refl [simp]: "same_rank a a"
  by (simp add: same_rank_def)

















subsection \<open>Float weights\<close>






subsection \<open>Integer weights\<close>

text \<open>
  With integer weights every distance is an integer, exact, and \<^verbatim>\<open>g + 0.0\<close> converts
  it. The conversion is exact up to two to the power \<open>53\<close> in magnitude, and the distance of a node
  is bounded by the weights that leave the nodes visited so far.
\<close>

fun weight_abs :: "pynum \<Rightarrow> int" where
  "weight_abs (PInt i) = abs i"
| "weight_abs (PFloat y) = 0"


definition weights_of :: "'v neighbors \<Rightarrow> int" where
  "weights_of ns = sum_list (map (\<lambda>e. weight_abs (snd e)) ns)"





lemma weight_abs_nonneg [simp]: "0 \<le> weight_abs w"
  by (cases w) simp_all

lemma wsum_nonneg: "0 \<le> (\<Sum>e\<leftarrow>ns. weight_abs (snd e))"
  by (induction ns) simp_all

lemma weights_of_nonneg [simp]: "0 \<le> weights_of ns"
  by (simp add: weights_of_def wsum_nonneg)




















section \<open>Termination\<close>

text \<open>
  The four frontier loops are total functions: their termination proofs are the
  measures given with their definitions (the nodes not yet visited, then the length of
  the frontier). What remains is the loop that walks the parent table back from the
  goal. It returns because the parent of a node was recorded before the node: the
  parent table, restricted to a set \<open>V\<close>, leads every node of \<open>V\<close> to a node without
  parent.
\<close>

inductive chain_in :: "('v \<rightharpoonup> 'v option) \<Rightarrow> 'v set \<Rightarrow> 'v \<Rightarrow> bool" for parent V where
  root: "v \<in> V \<Longrightarrow> parent v = Some None \<Longrightarrow> chain_in parent V v"
| step: "v \<in> V \<Longrightarrow> parent v = Some (Some u) \<Longrightarrow> chain_in parent V u \<Longrightarrow> chain_in parent V v"

lemma chain_in_mono: "chain_in p V v \<Longrightarrow> V \<subseteq> W \<Longrightarrow> chain_in p W v"
  by (induction rule: chain_in.induct) (auto intro: chain_in.intros)

lemma chain_in_upd: "chain_in p V v \<Longrightarrow> n \<notin> V \<Longrightarrow> chain_in (p(n \<mapsto> x)) V v"
proof (induction rule: chain_in.induct)
  case (root v)
  then have "(p(n \<mapsto> x)) v = Some None" by auto
  with root show ?case by (auto intro: chain_in.root)
next
  case (step v u)
  then have "(p(n \<mapsto> x)) v = Some (Some u)" by auto
  with step show ?case by (auto intro: chain_in.step)
qed

lemma chain_in_new:
  assumes "chain_in p V c" "n \<notin> V"
  shows "chain_in (p(n \<mapsto> Some c)) (insert n V) n"
proof -
  have "chain_in (p(n \<mapsto> Some c)) V c" using assms by (rule chain_in_upd)
  then have "chain_in (p(n \<mapsto> Some c)) (insert n V) c" by (rule chain_in_mono) auto
  then show ?thesis by (rule chain_in.step [where u = c, rotated 2]) auto
qed

lemma walk_back_chain:
  "chain_in p V v \<Longrightarrow> \<exists>l. walk_back p (Some v) acc = Some (Inr l)"
proof (induction arbitrary: acc rule: chain_in.induct)
  case (root v)
  then have "walk_back p (Some v) acc = walk_back p None (acc @ [v])"
    by (subst walk_back.simps) simp
  then show ?case by (subst (asm) (2) walk_back.simps) simp
next
  case (step v u)
  from step.IH [of "acc @ [v]"] step.hyps show ?case by (subst walk_back.simps) simp
qed

lemma walk_back_get_chain:
  "chain_in p V v \<Longrightarrow> \<exists>l. walk_back_get p (Some v) acc = Some l"
proof (induction arbitrary: acc rule: chain_in.induct)
  case (root v)
  then have "walk_back_get p (Some v) acc = walk_back_get p None (acc @ [v])"
    by (subst walk_back_get.simps) simp
  then show ?case by (subst (asm) (2) walk_back_get.simps) simp
next
  case (step v u)
  from step.IH [of "acc @ [v]"] step.hyps show ?case by (subst walk_back_get.simps) simp
qed

definition parents_ok :: "('v \<rightharpoonup> 'v option) \<Rightarrow> 'v set \<Rightarrow> bool" where
  "parents_ok parent V = (\<forall>v \<in> V. chain_in parent V v)"

lemma parents_ok_new:
  assumes "parents_ok p V" "c \<in> V" "n \<notin> V"
  shows "parents_ok (p(n \<mapsto> Some c)) (insert n V)"
  unfolding parents_ok_def
proof
  fix v assume v: "v \<in> insert n V"
  have c: "chain_in p V c" using assms(1,2) by (simp add: parents_ok_def)
  show "chain_in (p(n \<mapsto> Some c)) (insert n V) v"
  proof (cases "v = n")
    case True
    then show ?thesis using chain_in_new [OF c assms(3)] by simp
  next
    case False
    with v assms(1) have "chain_in p V v" by (simp add: parents_ok_def)
    then have "chain_in (p(n \<mapsto> Some c)) V v" using assms(3) by (rule chain_in_upd)
    then show ?thesis by (rule chain_in_mono) auto
  qed
qed

subsection \<open>Breadth-first search returns\<close>

lemma bfs_for_inv:
  assumes "bfs_for c ns q vis p vo = (q', vis', p', vo')"
    and "parents_ok p vis" "c \<in> vis" "set q \<subseteq> vis"
  shows "parents_ok p' vis' \<and> set q' \<subseteq> vis'"
  using assms
proof (induction ns arbitrary: q vis p vo)
  case Nil
  then show ?case by simp
next
  case (Cons n ns)
  show ?case
  proof (cases "n \<in> vis")
    case True
    with Cons.prems have "bfs_for c ns q vis p vo = (q', vis', p', vo')" by simp
    from Cons.IH [OF this Cons.prems(2,3,4)] show ?thesis .
  next
    case False
    with Cons.prems have
      "bfs_for c ns (enqueue q n) (insert n vis) (p(n \<mapsto> Some c)) (vo @ [n]) = (q', vis', p', vo')"
      by simp
    moreover have "parents_ok (p(n \<mapsto> Some c)) (insert n vis)"
      using Cons.prems(2,3) False by (rule parents_ok_new)
    moreover have "c \<in> insert n vis" "set (enqueue q n) \<subseteq> insert n vis"
      using Cons.prems(3,4) by (auto simp: enqueue_def)
    ultimately show ?thesis by (rule Cons.IH)
  qed
qed

lemma bfs_while_returns:
  "parents_ok parent vis \<Longrightarrow> set queue \<subseteq> vis
   \<Longrightarrow> \<exists>r. bfs_while g goal queue vis parent visited_order = Some (Inr r)"
proof (induction g goal queue vis parent visited_order rule: bfs_while.induct)
  case (1 g goal queue vis parent visited_order)
  show ?case
  proof (cases "queue_is_empty queue")
    case True
    then show ?thesis by (subst bfs_while.simps) simp
  next
    case ne: False
    then obtain current queue1 where q: "queue = current # queue1"
      by (cases queue) (auto simp: queue_is_empty_def)
    then have dq: "dequeue queue = Inr (current, queue1)"
      by (simp add: dequeue_def queue_is_empty_def)
    from q "1.prems" have cur: "current \<in> vis" and q1: "set queue1 \<subseteq> vis" by auto
    show ?thesis
    proof (cases "current = goal")
      case True
      from cur "1.prems"(1) have "chain_in parent vis goal" by (simp add: parents_ok_def True)
      from walk_back_chain [OF this, of "[]"] obtain l where
        "walk_back parent (Some goal) [] = Some (Inr l)" by blast
      with ne dq True show ?thesis by (subst bfs_while.simps) simp
    next
      case ng: False
      obtain q2 vis2 p2 vo2 where
        bf: "bfs_for current (get_neighbors g current) queue1 vis parent visited_order
             = (q2, vis2, p2, vo2)"
        by (cases "bfs_for current (get_neighbors g current) queue1 vis parent visited_order")
      from bfs_for_inv [OF bf "1.prems"(1) cur q1]
      have "\<exists>r. bfs_while g goal q2 vis2 p2 vo2 = Some (Inr r)"
        by (intro "1.IH" [OF ne dq refl ng bf [symmetric] refl refl]) auto
      with ne dq ng bf show ?thesis by (subst bfs_while.simps) simp
    qed
  qed
qed

lemma breadth_first_search_returns:
  "\<exists>r. breadth_first_search g start_value goal_value = Some (Inr r)"
proof (cases "get_node g start_value = None \<or> get_node g goal_value = None")
  case True
  then show ?thesis by (auto simp: breadth_first_search_def split: option.splits)
next
  case False
  have "parents_ok [start_value \<mapsto> None] {start_value}"
    by (simp add: parents_ok_def chain_in.root)
  from bfs_while_returns [OF this, of "enqueue [] start_value" g goal_value "[start_value]"]
  show ?thesis using False by (auto simp: breadth_first_search_def enqueue_def)
qed

subsection \<open>Depth-first search returns\<close>

lemma dfs_for_inv:
  assumes "dfs_for c vis ns p st = (p', st')"
    and "parents_ok p (dom p)" "c \<in> dom p" "set st \<subseteq> dom p"
  shows "parents_ok p' (dom p') \<and> set st' \<subseteq> dom p'"
  using assms
proof (induction ns arbitrary: p st)
  case Nil
  then show ?case by simp
next
  case (Cons n ns)
  show ?case
  proof (cases "n \<in> vis")
    case True
    with Cons.prems have "dfs_for c vis ns p st = (p', st')" by simp
    from Cons.IH [OF this Cons.prems(2,3,4)] show ?thesis .
  next
    case False
    show ?thesis
    proof (cases "p n = None")
      case True
      with False Cons.prems have 1: "dfs_for c vis ns (p(n \<mapsto> Some c)) (push st n) = (p', st')"
        by simp
      have n: "n \<notin> dom p" using True by auto
      have "parents_ok (p(n \<mapsto> Some c)) (insert n (dom p))"
        using Cons.prems(2,3) n by (rule parents_ok_new)
      then have 2: "parents_ok (p(n \<mapsto> Some c)) (dom (p(n \<mapsto> Some c)))" by simp
      have 3: "c \<in> dom (p(n \<mapsto> Some c))" using Cons.prems(3) by auto
      have 4: "set (push st n) \<subseteq> dom (p(n \<mapsto> Some c))"
        using Cons.prems(4) by (auto simp: push_def)
      from Cons.IH [OF 1 2 3 4] show ?thesis .
    next
      case nn: False
      with False Cons.prems have 1: "dfs_for c vis ns p (push st n) = (p', st')" by simp
      have 4: "set (push st n) \<subseteq> dom p" using Cons.prems(4) nn by (auto simp: push_def)
      from Cons.IH [OF 1 Cons.prems(2,3) 4] show ?thesis .
    qed
  qed
qed

lemma dfs_while_returns:
  "parents_ok parent (dom parent) \<Longrightarrow> set stack \<subseteq> dom parent
   \<Longrightarrow> \<exists>r. dfs_while g goal stack vis parent visited_order = Some (Inr r)"
proof (induction g goal stack vis parent visited_order rule: dfs_while.induct)
  case (1 g goal stack vis parent visited_order)
  show ?case
  proof (cases "stack_is_empty stack")
    case True
    then show ?thesis by (subst dfs_while.simps) simp
  next
    case ne: False
    then obtain current stack1 where s: "stack = current # stack1"
      by (cases stack) (auto simp: stack_is_empty_def)
    then have pp: "pop stack = Inr (current, stack1)"
      by (simp add: pop_def stack_is_empty_def)
    from s "1.prems" have cur: "current \<in> dom parent" and s1: "set stack1 \<subseteq> dom parent"
      by auto
    show ?thesis
    proof (cases "current \<in> vis")
      case True
      have "\<exists>r. dfs_while g goal stack1 vis parent visited_order = Some (Inr r)"
        using "1.prems"(1) s1 by (rule "1.IH"(1) [OF ne pp refl True])
      with ne pp True show ?thesis by (subst dfs_while.simps) simp
    next
      case nv: False
      show ?thesis
      proof (cases "current = goal")
        case True
        from cur "1.prems"(1) have "chain_in parent (dom parent) goal"
          by (simp add: parents_ok_def True)
        from walk_back_chain [OF this, of "[]"] obtain l where
          "walk_back parent (Some goal) [] = Some (Inr l)" by blast
        with ne pp nv True show ?thesis by (subst dfs_while.simps) (simp add: Let_def)
      next
        case ng: False
        obtain p2 st2 where
          df: "dfs_for current (insert current vis) (rev (get_neighbors g current)) parent stack1
               = (p2, st2)"
          by (cases "dfs_for current (insert current vis) (rev (get_neighbors g current))
                       parent stack1")
        from dfs_for_inv [OF df "1.prems"(1) cur s1]
        have inv: "parents_ok p2 (dom p2)" "set st2 \<subseteq> dom p2" by simp_all
        have "\<exists>r. dfs_while g goal st2 (insert current vis) p2 (visited_order @ [current])
                   = Some (Inr r)"
          using inv by (rule "1.IH"(2) [OF ne pp refl nv refl refl ng df [symmetric]])
        with ne pp nv ng df show ?thesis by (subst dfs_while.simps) (simp add: Let_def)
      qed
    qed
  qed
qed

lemma depth_first_search_returns:
  "\<exists>r. depth_first_search g start_value goal_value = Some (Inr r)"
proof (cases "get_node g start_value = None \<or> get_node g goal_value = None")
  case True
  then show ?thesis by (auto simp: depth_first_search_def split: option.splits)
next
  case False
  have "parents_ok [start_value \<mapsto> None] (dom [start_value \<mapsto> None])"
    by (simp add: parents_ok_def chain_in.root)
  from dfs_while_returns [OF this, of "push [] start_value" g goal_value "{}" "[]"]
  show ?thesis using False by (auto simp: depth_first_search_def push_def)
qed

subsection \<open>Dijkstra and A* return\<close>

text \<open>
  Here a parent can be replaced, but only that of a node not yet visited, and the
  new parent is visited. Every node in the heap is visited (a stale entry), or has no
  parent (the start), or has a visited parent.
\<close>

definition frontier_ok :: "('v \<rightharpoonup> 'v option) \<Rightarrow> 'v set \<Rightarrow> 'v set \<Rightarrow> bool" where
  "frontier_ok parent vis F =
     (\<forall>v \<in> F. v \<in> vis \<or> parent v = Some None \<or> (\<exists>u \<in> vis. parent v = Some (Some u)))"

lemma parents_ok_upd: "parents_ok p V \<Longrightarrow> n \<notin> V \<Longrightarrow> parents_ok (p(n \<mapsto> x)) V"
  by (simp add: parents_ok_def chain_in_upd)

lemma frontier_ok_upd:
  "frontier_ok p vis F \<Longrightarrow> c \<in> vis \<Longrightarrow> frontier_ok (p(n \<mapsto> Some c)) vis (insert n F)"
  unfolding frontier_ok_def by auto

lemma frontier_pop:
  assumes "parents_ok p vis" "frontier_ok p vis (insert c F)" "c \<notin> vis"
  shows "parents_ok p (insert c vis) \<and> frontier_ok p (insert c vis) F"
proof
  have c: "chain_in p (insert c vis) c"
  proof -
    from assms(2,3) consider "p c = Some None" | u where "u \<in> vis" "p c = Some (Some u)"
      unfolding frontier_ok_def by auto
    then show ?thesis
    proof cases
      case 1
      then show ?thesis by (auto intro: chain_in.root)
    next
      case 2
      with assms(1) have "chain_in p vis u" by (simp add: parents_ok_def)
      then have "chain_in p (insert c vis) u" by (rule chain_in_mono) auto
      with 2 show ?thesis by (auto intro: chain_in.step)
    qed
  qed
  show "parents_ok p (insert c vis)"
    unfolding parents_ok_def
  proof
    fix v assume "v \<in> insert c vis"
    then consider "v = c" | "v \<in> vis" by auto
    then show "chain_in p (insert c vis) v"
    proof cases
      case 1
      with c show ?thesis by simp
    next
      case 2
      with assms(1) have "chain_in p vis v" by (simp add: parents_ok_def)
      then show ?thesis by (rule chain_in_mono) auto
    qed
  qed
  show "frontier_ok p (insert c vis) F"
    using assms(2) unfolding frontier_ok_def by auto
qed

lemma dijkstra_for_inv:
  assumes "dijkstra_for c cns ns vis d p pq = Inr (d', p', pq')"
    and "parents_ok p vis" "frontier_ok p vis (snd ` set pq)" "c \<in> vis"
  shows "parents_ok p' vis \<and> frontier_ok p' vis (snd ` set pq')"
  using assms
proof (induction ns arbitrary: d p pq)
  case Nil
  then show ?case by simp
next
  case (Cons n ns)
  show ?case
  proof (cases "n \<in> vis")
    case True
    with Cons.prems have "dijkstra_for c cns ns vis d p pq = Inr (d', p', pq')" by simp
    from Cons.IH [OF this Cons.prems(2,3,4)] show ?thesis .
  next
    case False
    with Cons.prems(1) obtain dc t dn where dc: "d c = Some dc"
      and t: "py_add dc (get_weight cns n) = Inr t" and dn: "d n = Some dn"
      by (auto simp: Let_def split: option.splits sum.splits)
    show ?thesis
    proof (cases "t < dn")
      case True
      with Cons.prems(1) False dc t dn
      have 1: "dijkstra_for c cns ns vis (d(n \<mapsto> t)) (p(n \<mapsto> Some c)) (insert_pq pq n t)
            = Inr (d', p', pq')" by (simp add: Let_def)
      have 2: "parents_ok (p(n \<mapsto> Some c)) vis" using Cons.prems(2) False by (rule parents_ok_upd)
      have 3: "frontier_ok (p(n \<mapsto> Some c)) vis (snd ` set (insert_pq pq n t))"
        using frontier_ok_upd [OF Cons.prems(3,4), of n] by (simp add: set_insert_pq)
      from Cons.IH [OF 1 2 3 Cons.prems(4)] show ?thesis .
    next
      case lt: False
      with Cons.prems(1) False dc t dn
      have "dijkstra_for c cns ns vis d p pq = Inr (d', p', pq')" by (simp add: Let_def)
      from Cons.IH [OF this Cons.prems(2,3,4)] show ?thesis .
    qed
  qed
qed

lemma dijkstra_while_returns:
  "parents_ok parent vis \<Longrightarrow> frontier_ok parent vis (snd ` set pq)
   \<Longrightarrow> \<exists>r. dijkstra_while g goal pq vis distance parent visited_order = Some r"
proof (induction g goal pq vis distance parent visited_order rule: dijkstra_while.induct)
  case (1 g goal pq vis distance parent visited_order)
  show ?case
  proof (cases "pq_is_empty pq")
    case True
    then show ?thesis by (subst dijkstra_while.simps) simp
  next
    case ne: False
    then obtain cd cur pq1 where ex: "extract_min pq = Inr ((cd, cur), pq1)"
      by (cases "extract_min pq") (auto simp: extract_min_Inl pq_is_empty_def)
    from set_extract_min [OF ex] have sp: "snd ` set pq = insert cur (snd ` set pq1)" by simp
    show ?thesis
    proof (cases "cur \<in> vis")
      case True
      have "frontier_ok parent vis (snd ` set pq1)"
        using "1.prems"(2) sp by (simp add: frontier_ok_def)
      with "1.prems"(1)
      have "\<exists>r. dijkstra_while g goal pq1 vis distance parent visited_order = Some r"
        by (rule "1.IH"(1) [OF ne ex refl refl True])
      with ne ex True show ?thesis by (subst dijkstra_while.simps) simp
    next
      case nv: False
      from frontier_pop [OF "1.prems"(1) _ nv, of "snd ` set pq1"] "1.prems"(2) sp
      have inv: "parents_ok parent (insert cur vis)"
        "frontier_ok parent (insert cur vis) (snd ` set pq1)" by simp_all
      show ?thesis
      proof (cases "cur = goal")
        case True
        from inv(1) have "chain_in parent (insert cur vis) goal"
          by (simp add: parents_ok_def True)
        from walk_back_get_chain [OF this, of "[]"] obtain l where
          "walk_back_get parent (Some goal) [] = Some l" by blast
        with ne ex nv True show ?thesis
          by (subst dijkstra_while.simps) (simp add: Let_def split: option.splits)
      next
        case ng: False
        show ?thesis
        proof (cases "dijkstra_for cur (neighbors_of g cur) (get_neighbors g cur)
                        (insert cur vis) distance parent pq1")
          case (Inl e)
          with ne ex nv ng show ?thesis by (subst dijkstra_while.simps) (simp add: Let_def)
        next
          case (Inr r2)
          then obtain d2 p2 pq2 where
            df: "dijkstra_for cur (neighbors_of g cur) (get_neighbors g cur)
                   (insert cur vis) distance parent pq1 = Inr (d2, p2, pq2)"
            by (cases r2) auto
          from dijkstra_for_inv [OF df inv] have inv2: "parents_ok p2 (insert cur vis)"
            "frontier_ok p2 (insert cur vis) (snd ` set pq2)" by simp_all
          have "\<exists>r. dijkstra_while g goal pq2 (insert cur vis) d2 p2 (visited_order @ [cur])
                     = Some r"
            using inv2 by (rule "1.IH"(2) [OF ne ex refl refl nv refl refl ng df refl refl])
          with df ne ex nv ng show ?thesis by (subst dijkstra_while.simps) (simp add: Let_def)
        qed
      qed
    qed
  qed
qed

lemma dijkstra_returns: "\<exists>r. dijkstra g start_value goal_value = Some r"
proof (cases "get_node g start_value = None \<or> get_node g goal_value = None")
  case True
  then show ?thesis by (auto simp: dijkstra_def split: option.splits)
next
  case False
  have "parents_ok [start_value \<mapsto> None] {}" by (simp add: parents_ok_def)
  moreover have "frontier_ok [start_value \<mapsto> None] {}
                   (snd ` set (insert_pq [] start_value (PInt 0)))"
    by (simp add: frontier_ok_def set_insert_pq)
  ultimately have "\<exists>r. dijkstra_while g goal_value (insert_pq [] start_value (PInt 0)) {}
                         ((inf_table g)(start_value \<mapsto> PInt 0)) [start_value \<mapsto> None] [] = Some r"
    by (rule dijkstra_while_returns)
  then show ?thesis using False by (auto simp: dijkstra_def)
qed

end
